theory Spec2Isabelle
  imports Main "HOL-Library.Multiset" "HOL-Library.Sublist"
begin

section \<open>The operator dispatcher of ATen/core/dispatch/Dispatcher.cpp\<close>

text \<open>
  The development embeds the registry implemented in
  \<^verbatim>\<open>aten/src/ATen/core/dispatch/Dispatcher.cpp\<close>. Every member function of
  \<^verbatim>\<open>Dispatcher\<close> becomes a function from the dispatcher's state to a result and the
  state it leaves behind. A C++ exception (\<^verbatim>\<open>TORCH_CHECK\<close>,
  \<^verbatim>\<open>TORCH_INTERNAL_ASSERT\<close>, \<^verbatim>\<open>optional::value\<close>) is a value of type \<open>error\<close>;
  the state returned beside it is the state at the moment of the throw, because the
  mutations made before a throw are not undone. Names are those of the source, without
  the trailing underscore of private members, which is not a legal end of a name here.
\<close>

subsection \<open>Collaborating types\<close>

text \<open>
  The headers that declare the following types are not part of the excerpt, so each is
  modelled as far as \<^verbatim>\<open>Dispatcher.cpp\<close> uses it.
\<close>

text \<open>\<^verbatim>\<open>OperatorName\<close>: the pair of base name and overload name, compared by value.\<close>

type_synonym operator_name = "string \<times> string"

text \<open>
  Modelled from the spec: \<^verbatim>\<open>AliasAnalysisKind\<close> (declared outside the excerpt). One
  designated value means "unspecified/default"; the concrete kinds are told apart by
  their enumerator number.
\<close>

datatype alias_analysis_kind = DEFAULT_KIND | KIND nat

text \<open>
  Modelled from the spec: \<^verbatim>\<open>FunctionSchema\<close> (declared outside the excerpt), an
  immutable, comparable, printable description of the calling contract together with the
  alias-analysis kind. The argument and return lists are kept in their printed form.
\<close>

record function_schema =
  operator_name :: operator_name
  signature :: string
  aliasAnalysis :: alias_analysis_kind

definition isDefaultAliasAnalysisKind :: "function_schema \<Rightarrow> bool" where
  "isDefaultAliasAnalysisKind s = (aliasAnalysis s = DEFAULT_KIND)"

text \<open>
  Modelled from the spec: \<^verbatim>\<open>operator!=\<close> of \<^verbatim>\<open>FunctionSchema\<close>. It compares the
  name and the calling contract and leaves the alias-analysis kind out:
  \<^verbatim>\<open>findOrRegisterWithSchema_\<close> compares the kinds itself, after this comparison has
  found the two schemas equal.
\<close>

definition schema_neq :: "function_schema \<Rightarrow> function_schema \<Rightarrow> bool" where
  "schema_neq a b = (operator_name a \<noteq> operator_name b \<or> signature a \<noteq> signature b)"

text \<open>
  Modelled from the spec: the printing of names and schemas (\<^verbatim>\<open>operator<<\<close>, declared
  outside the excerpt), which the error messages use.
\<close>

definition toString_name :: "operator_name \<Rightarrow> string" where
  "toString_name n = (if snd n = [] then fst n else fst n @ ''.'' @ snd n)"

definition toString_schema :: "function_schema \<Rightarrow> string" where
  "toString_schema s = toString_name (operator_name s) @ signature s"

text \<open>
  Modelled from the spec: \<^verbatim>\<open>DispatchKey\<close>, a closed set of opaque backend tags with
  one value, \<^verbatim>\<open>Undefined\<close>, for "no tag". A concrete tag is identified by its printed
  name.
\<close>

datatype dispatch_key = Undefined | Backend string

fun toString_key :: "dispatch_key \<Rightarrow> string" where
  "toString_key Undefined = ''Undefined''"
| "toString_key (Backend s) = s"

text \<open>
  Modelled from the spec: \<^verbatim>\<open>DispatchKeySet\<close>, the bitset of backend tags with its
  \<^verbatim>\<open>FULL\<close> value and the operations \<^verbatim>\<open>add\<close> and \<^verbatim>\<open>remove\<close>.
\<close>

type_synonym dispatch_key_set = "dispatch_key set"

definition FULL :: dispatch_key_set where
  "FULL = UNIV"

definition remove_key :: "dispatch_key_set \<Rightarrow> dispatch_key \<Rightarrow> dispatch_key_set" where
  "remove_key s k = s - {k}"

definition add_key :: "dispatch_key_set \<Rightarrow> dispatch_key \<Rightarrow> dispatch_key_set" where
  "add_key s k = insert k s"

text \<open>
  Modelled from the spec: \<^verbatim>\<open>KernelFunction\<close>, an opaque callable that carries the
  property "is fallthrough". The dispatcher stores kernels and never calls them.
\<close>

record kernel_function =
  callable :: nat
  isFallthrough :: bool

text \<open>
  The exceptions that leave the dispatcher. \<open>TorchCheck\<close> is the error of a failed
  \<^verbatim>\<open>TORCH_CHECK\<close> with its message, \<open>InternalAssert\<close> a failed
  \<^verbatim>\<open>TORCH_INTERNAL_ASSERT\<close> with the text of the condition, \<open>BadOptionalAccess\<close>
  what \<^verbatim>\<open>optional::value\<close> throws on an empty optional. Dereferencing the iterator of
  an erased list node is undefined in C++; the model stops such a call with
  \<open>InvalidHandle\<close> instead of inventing a result.
\<close>

datatype error =
    TorchCheck string
  | InternalAssert string
  | BadOptionalAccess
  | InvalidHandle

subsection \<open>Operator entries\<close>

text \<open>
  A kernel registered with an entry is addressed by the list iterator that
  \<^verbatim>\<open>registerKernel\<close> returns; the model calls this address a token.
\<close>

type_synonym kernel_token = nat

text \<open>
  Modelled from the spec: \<^verbatim>\<open>impl::OperatorEntry\<close> (declared outside the excerpt). It
  holds the name, the schema (absent for an entry created from a name only) and the
  kernels per backend tag or for "no tag", newest first.
\<close>

record operator_entry =
  entry_name :: operator_name
  entry_schema :: "function_schema option"
  kernels :: "(dispatch_key option \<times> kernel_token \<times> kernel_function) list"

definition OperatorEntry_of_schema :: "function_schema \<Rightarrow> operator_entry" where
  "OperatorEntry_of_schema s =
     \<lparr>entry_name = operator_name s, entry_schema = Some s, kernels = []\<rparr>"

definition OperatorEntry_of_name :: "operator_name \<Rightarrow> operator_entry" where
  "OperatorEntry_of_name n = \<lparr>entry_name = n, entry_schema = None, kernels = []\<rparr>"

text \<open>
  Modelled from the spec: \<^verbatim>\<open>OperatorEntry::schema\<close>. The spec lets the signature of an
  entry be absent; reading an absent signature is taken to be an internal invariant
  violation, so it fails with an internal assertion.
\<close>

definition schema_of :: "operator_entry \<Rightarrow> error + function_schema" where
  "schema_of e =
     (case entry_schema e of
        None \<Rightarrow> Inl (InternalAssert ''schema_.has_value()'')
      | Some s \<Rightarrow> Inr s)"

text \<open>
  Modelled from the spec: \<^verbatim>\<open>updateSchemaAliasAnalysis\<close> sets the alias-analysis kind of
  the entry's schema; \<^verbatim>\<open>registerKernel\<close> puts the kernel in front of the entry's
  kernels and returns its address, which the caller supplies here as \<open>t\<close>;
  \<^verbatim>\<open>deregisterKernel_\<close> erases the kernel with the given backend tag and address.
\<close>

definition updateSchemaAliasAnalysis :: "alias_analysis_kind \<Rightarrow> operator_entry \<Rightarrow> operator_entry" where
  "updateSchemaAliasAnalysis a e =
     e\<lparr>entry_schema := map_option (\<lambda>s. s\<lparr>aliasAnalysis := a\<rparr>) (entry_schema e)\<rparr>"

definition registerKernel ::
  "dispatch_key option \<Rightarrow> kernel_token \<Rightarrow> kernel_function \<Rightarrow> operator_entry \<Rightarrow> operator_entry" where
  "registerKernel k t f e = e\<lparr>kernels := (k, t, f) # kernels e\<rparr>"

fun erase_kernel ::
  "dispatch_key option \<Rightarrow> kernel_token \<Rightarrow>
   (dispatch_key option \<times> kernel_token \<times> kernel_function) list \<Rightarrow>
   (dispatch_key option \<times> kernel_token \<times> kernel_function) list" where
  "erase_kernel k t [] = []"
| "erase_kernel k t ((k', t', f) # ks) =
     (if k' = k \<and> t' = t then ks else (k', t', f) # erase_kernel k t ks)"

definition has_kernel :: "dispatch_key option \<Rightarrow> kernel_token \<Rightarrow> operator_entry \<Rightarrow> bool" where
  "has_kernel k t e = ((k, t) \<in> set (map (\<lambda>(k', t', f). (k', t')) (kernels e)))"

text \<open>
  Modelled from the spec: removing a kernel that was never registered is an internal
  invariant violation.
\<close>

definition deregisterKernel ::
  "dispatch_key option \<Rightarrow> kernel_token \<Rightarrow> operator_entry \<Rightarrow> error + operator_entry" where
  "deregisterKernel k t e =
     (if has_kernel k t e then Inr (e\<lparr>kernels := erase_kernel k t (kernels e)\<rparr>)
      else Inl (InternalAssert ''found != kernels_.end()''))"

text \<open>
  Modelled from the spec: \<^verbatim>\<open>prepareForDeregistration\<close> asserts that the entry has no
  dangling state, that is that no kernel is left.
\<close>

definition prepareForDeregistration :: "operator_entry \<Rightarrow> error + unit" where
  "prepareForDeregistration e =
     (if kernels e = [] then Inr () else Inl (InternalAssert ''kernels_.size() == 0''))"

text \<open>
  Modelled from the spec: \<^verbatim>\<open>Dispatcher::OperatorDef\<close> (declared outside the excerpt), the
  node stored in \<^verbatim>\<open>operators_\<close>: an entry with its strong and its weak counter, both 0
  in a new node. The counters are natural numbers without an upper bound, their C++
  type being declared outside the excerpt.
\<close>

record operator_def =
  op :: operator_entry
  refcount :: nat
  weak_refcount :: nat

definition OperatorDef :: "operator_entry \<Rightarrow> operator_def" where
  "OperatorDef e = \<lparr>op = e, refcount = 0, weak_refcount = 0\<rparr>"

subsection \<open>Listeners\<close>

text \<open>
  Modelled from the spec: \<^verbatim>\<open>OperatorHandle\<close> and \<^verbatim>\<open>OpRegistrationListener\<close> (declared
  outside the excerpt). A handle wraps the list iterator of a node of \<^verbatim>\<open>operators_\<close>,
  which is the node's address. A listener is an object with the two callbacks
  on-registered and on-deregistered; what the dispatcher does to it is the sequence of
  callbacks it invokes on it, so a listener is the list of the calls it has received,
  oldest first.
\<close>

type_synonym operator_handle = nat

datatype event =
    OnOperatorRegistered operator_handle
  | OnOperatorDeregistered operator_handle

type_synonym listener = "event list"

definition onOperatorRegistered :: "operator_handle \<Rightarrow> listener \<Rightarrow> listener" where
  "onOperatorRegistered h l = l @ [OnOperatorRegistered h]"

definition onOperatorDeregistered :: "operator_handle \<Rightarrow> listener \<Rightarrow> listener" where
  "onOperatorDeregistered h l = l @ [OnOperatorDeregistered h]"

text \<open>\<^verbatim>\<open>detail::RegistrationListenerList\<close>: the three loops over \<^verbatim>\<open>listeners_\<close>.\<close>

definition addListener :: "listener \<Rightarrow> listener list \<Rightarrow> listener list" where
  "addListener l ls = ls @ [l]"

fun callOnOperatorRegistered :: "operator_handle \<Rightarrow> listener list \<Rightarrow> listener list" where
  "callOnOperatorRegistered h [] = []"
| "callOnOperatorRegistered h (l # ls) =
     onOperatorRegistered h l # callOnOperatorRegistered h ls"

fun callOnOperatorDeregistered :: "operator_handle \<Rightarrow> listener list \<Rightarrow> listener list" where
  "callOnOperatorDeregistered h [] = []"
| "callOnOperatorDeregistered h (l # ls) =
     onOperatorDeregistered h l # callOnOperatorDeregistered h ls"

text \<open>
  Modelled from the spec: a callback of a listener receives the handle and runs while the
  dispatcher is in the state its caller has reached, so the callback can read the
  dispatcher through the handle. A \<open>call\<close> is one invocation of a callback: the position in
  \<^verbatim>\<open>listeners_\<close> of the listener called (for the replay of \<^verbatim>\<open>addRegistrationListener\<close>,
  the position the listener is about to get), the event, the node the handle refers to at
  that moment (none before the node is inserted or after it is erased), and what looking
  up the name of that node returns at that moment.
\<close>

datatype call = Call nat event "operator_def option" "operator_handle option"

subsection \<open>The dispatcher's state\<close>

text \<open>
  \<open>operators\<close> is the \<^verbatim>\<open>std::list\<close> of nodes, each with its address, in list order.
  \<open>next_addr\<close> is the allocator: the address the next list node (of \<open>operators\<close> or of
  an entry's kernel list) receives. \<open>calls\<close> is the trace of the callback invocations
  made so far, oldest first. The mutex is left out: every function below runs as one
  atomic step.
\<close>

record dispatcher =
  operators :: "(operator_handle \<times> operator_def) list"
  operatorLookupTable :: "operator_name \<rightharpoonup> operator_handle"
  backendFallbackKernels :: "dispatch_key \<rightharpoonup> kernel_function"
  backendsWithoutFallthrough :: dispatch_key_set
  listeners :: "listener list"
  next_addr :: nat
  calls :: "call list"

definition Dispatcher :: dispatcher where
  "Dispatcher =
     \<lparr>operators = [], operatorLookupTable = Map.empty,
      backendFallbackKernels = Map.empty, backendsWithoutFallthrough = FULL,
      listeners = [], next_addr = 0, calls = []\<rparr>"

text \<open>Reading and writing the node behind a handle.\<close>

definition deref :: "dispatcher \<Rightarrow> operator_handle \<Rightarrow> operator_def option" where
  "deref d h = map_of (operators d) h"

definition modify_node ::
  "operator_handle \<Rightarrow> (operator_def \<Rightarrow> operator_def) \<Rightarrow> dispatcher \<Rightarrow> dispatcher" where
  "modify_node h f d =
     d\<lparr>operators := map (\<lambda>(i, x). if i = h then (i, f x) else (i, x)) (operators d)\<rparr>"

definition erase_node :: "operator_handle \<Rightarrow> dispatcher \<Rightarrow> dispatcher" where
  "erase_node h d = d\<lparr>operators := filter (\<lambda>(i, x). i \<noteq> h) (operators d)\<rparr>"

definition emplace_back :: "operator_entry \<Rightarrow> dispatcher \<Rightarrow> operator_handle \<times> dispatcher" where
  "emplace_back e d =
     (next_addr d,
      d\<lparr>operators := operators d @ [(next_addr d, OperatorDef e)],
        next_addr := Suc (next_addr d)\<rparr>)"

text \<open>\<^verbatim>\<open>flat_hash_map::emplace\<close> inserts only when the key is absent.\<close>

definition emplace ::
  "operator_name \<Rightarrow> operator_handle \<Rightarrow> (operator_name \<rightharpoonup> operator_handle) \<Rightarrow>
   (operator_name \<rightharpoonup> operator_handle)" where
  "emplace n h m = (case m n of None \<Rightarrow> m(n \<mapsto> h) | Some _ \<Rightarrow> m)"

text \<open>\<^verbatim>\<open>OperatorHandle::schema\<close> and \<^verbatim>\<open>OperatorHandle::operator_name\<close>.\<close>

definition handle_schema :: "dispatcher \<Rightarrow> operator_handle \<Rightarrow> error + function_schema" where
  "handle_schema d h =
     (case deref d h of None \<Rightarrow> Inl InvalidHandle | Some x \<Rightarrow> schema_of (op x))"

definition handle_operator_name :: "dispatcher \<Rightarrow> operator_handle \<Rightarrow> error + operator_name" where
  "handle_operator_name d h =
     (case deref d h of None \<Rightarrow> Inl InvalidHandle | Some x \<Rightarrow> Inr (entry_name (op x)))"

subsection \<open>Lookup\<close>

definition findSchema :: "dispatcher \<Rightarrow> operator_name \<Rightarrow> operator_handle option" where
  "findSchema d overload_name = operatorLookupTable d overload_name"

definition findSchemaOrThrow :: "dispatcher \<Rightarrow> string \<Rightarrow> string \<Rightarrow> error + operator_handle" where
  "findSchemaOrThrow d name overload_name =
     (case findSchema d (name, overload_name) of
        None \<Rightarrow> Inl BadOptionalAccess
      | Some h \<Rightarrow> Inr h)"

subsection \<open>Calling the listeners\<close>

text \<open>
  What a callback invoked with handle \<open>h\<close> on listener \<open>j\<close> finds when the dispatcher is in
  state \<open>d\<close>.
\<close>

definition invoke :: "nat \<Rightarrow> event \<Rightarrow> operator_handle \<Rightarrow> dispatcher \<Rightarrow> call" where
  "invoke j e h d =
     Call j e (deref d h)
       (case deref d h of None \<Rightarrow> None | Some x \<Rightarrow> findSchema d (entry_name (op x)))"

text \<open>
  The statements \<^verbatim>\<open>listeners_->callOnOperatorRegistered(op)\<close> and
  \<^verbatim>\<open>listeners_->callOnOperatorDeregistered(op)\<close>: every listener receives the call, and
  every invocation is appended to \<open>calls\<close> with what it finds in the state \<open>d\<close> in which
  the statement runs.
\<close>

definition notify_registered :: "operator_handle \<Rightarrow> dispatcher \<Rightarrow> dispatcher" where
  "notify_registered h d =
     d\<lparr>listeners := callOnOperatorRegistered h (listeners d),
       calls := calls d @ map (\<lambda>j. invoke j (OnOperatorRegistered h) h d)
                             [0..<length (listeners d)]\<rparr>"

definition notify_deregistered :: "operator_handle \<Rightarrow> dispatcher \<Rightarrow> dispatcher" where
  "notify_deregistered h d =
     d\<lparr>listeners := callOnOperatorDeregistered h (listeners d),
       calls := calls d @ map (\<lambda>j. invoke j (OnOperatorDeregistered h) h d)
                             [0..<length (listeners d)]\<rparr>"

subsection \<open>Find or create\<close>

text \<open>The messages of the two \<^verbatim>\<open>TORCH_CHECK\<close>s of \<^verbatim>\<open>findOrRegisterWithSchema_\<close>.\<close>

definition conflict_message :: "function_schema \<Rightarrow> function_schema \<Rightarrow> string" where
  "conflict_message schema fschema =
     ''Tried to register multiple operators with the same name and the same overload name but different schemas: ''
     @ toString_schema schema @ '' vs '' @ toString_schema fschema"

definition alias_message :: "function_schema \<Rightarrow> string" where
  "alias_message schema =
     ''Tried to register multiple operators with the same schema but different alias analysis kind: ''
     @ toString_schema schema"

definition findOrRegisterWithSchema ::
  "function_schema \<Rightarrow> dispatcher \<Rightarrow> (error + operator_handle) \<times> dispatcher" where
  "findOrRegisterWithSchema schema d =
     (case findSchema d (operator_name schema) of
        Some found \<Rightarrow>
          (case handle_schema d found of
             Inl e \<Rightarrow> (Inl e, d)
           | Inr fschema \<Rightarrow>
               if schema_neq fschema schema then
                 (Inl (TorchCheck (conflict_message schema fschema)), d)
               else if isDefaultAliasAnalysisKind schema then (Inr found, d)
               else if isDefaultAliasAnalysisKind fschema then
                 (Inr found,
                  modify_node found
                    (\<lambda>x. x\<lparr>op := updateSchemaAliasAnalysis (aliasAnalysis schema) (op x)\<rparr>) d)
               else if aliasAnalysis fschema = aliasAnalysis schema then (Inr found, d)
               else (Inl (TorchCheck (alias_message schema)), d))
      | None \<Rightarrow>
          (let op_name = operator_name schema;
               (handle, d1) = emplace_back (OperatorEntry_of_schema schema) d
           in (Inr handle,
               d1\<lparr>operatorLookupTable := emplace op_name handle (operatorLookupTable d1)\<rparr>)))"

definition findOrRegisterWithName ::
  "operator_name \<Rightarrow> dispatcher \<Rightarrow> operator_handle \<times> dispatcher" where
  "findOrRegisterWithName op_name d =
     (case findSchema d op_name of
        Some found \<Rightarrow> (found, d)
      | None \<Rightarrow>
          (let (handle, d1) = emplace_back (OperatorEntry_of_name op_name) d
           in (handle,
               d1\<lparr>operatorLookupTable := emplace op_name handle (operatorLookupTable d1)\<rparr>)))"

subsection \<open>Registration handles\<close>

text \<open>
  Modelled from the spec: \<^verbatim>\<open>RegistrationHandleRAII\<close> (declared outside the excerpt) owns
  the closure that undoes one registration and runs it exactly once. The three closures
  built in \<^verbatim>\<open>Dispatcher.cpp\<close> capture exactly the values below.
\<close>

datatype registration_handle =
    DefRegistration operator_handle operator_name
  | ImplRegistration operator_handle operator_name "dispatch_key option" kernel_token
  | FallbackRegistration dispatch_key

subsection \<open>Definition registration\<close>

text \<open>
  The state of \<^verbatim>\<open>registerDef\<close> after both counters are incremented, at the point where
  the listeners are about to be called.
\<close>

definition increment_refcounts :: "operator_handle \<Rightarrow> dispatcher \<Rightarrow> dispatcher" where
  "increment_refcounts h d =
     modify_node h (\<lambda>x. x\<lparr>weak_refcount := weak_refcount x + 1\<rparr>)
       (modify_node h (\<lambda>x. x\<lparr>refcount := refcount x + 1\<rparr>) d)"

definition registerDef ::
  "function_schema \<Rightarrow> dispatcher \<Rightarrow> (error + registration_handle) \<times> dispatcher" where
  "registerDef schema d =
     (let op_name = operator_name schema in
      case findOrRegisterWithSchema schema d of
        (Inl e, d1) \<Rightarrow> (Inl e, d1)
      | (Inr h, d1) \<Rightarrow>
          (let d2 = increment_refcounts h d1 in
           case deref d2 h of
             None \<Rightarrow> (Inl InvalidHandle, d2)
           | Some x \<Rightarrow>
               (Inr (DefRegistration h op_name),
                if 1 = refcount x then notify_registered h d2 else d2)))"

text \<open>
  The state of \<^verbatim>\<open>deregisterDef_\<close> after both counters are decremented, at the point
  where the listeners are about to be called.
\<close>

definition decrement_refcounts :: "operator_handle \<Rightarrow> dispatcher \<Rightarrow> dispatcher" where
  "decrement_refcounts h d =
     modify_node h (\<lambda>x. x\<lparr>weak_refcount := weak_refcount x - 1\<rparr>)
       (modify_node h (\<lambda>x. x\<lparr>refcount := refcount x - 1\<rparr>) d)"

text \<open>
  The common tail of both deregistration functions: when the weak counter is zero, assert
  the entry's deregistration invariants, erase the node and erase the name.
\<close>

definition erase_if_unreferenced ::
  "operator_handle \<Rightarrow> operator_name \<Rightarrow> dispatcher \<Rightarrow> (error + unit) \<times> dispatcher" where
  "erase_if_unreferenced h op_name d =
     (case deref d h of
        None \<Rightarrow> (Inl InvalidHandle, d)
      | Some x \<Rightarrow>
          if 0 = weak_refcount x then
            (case prepareForDeregistration (op x) of
               Inl e \<Rightarrow> (Inl e, d)
             | Inr u \<Rightarrow>
                 (let d1 = erase_node h d
                  in (Inr (),
                      d1\<lparr>operatorLookupTable := (operatorLookupTable d1)(op_name := None)\<rparr>)))
          else (Inr (), d))"

definition deregisterDef ::
  "operator_handle \<Rightarrow> operator_name \<Rightarrow> dispatcher \<Rightarrow> (error + unit) \<times> dispatcher" where
  "deregisterDef h op_name d =
     (case handle_schema d h of
        Inl e \<Rightarrow> (Inl e, d)
      | Inr s \<Rightarrow>
          if operator_name s \<noteq> op_name then
            (Inl (InternalAssert ''op.schema().operator_name() == op_name''), d)
          else
            (case deref d h of
               None \<Rightarrow> (Inl InvalidHandle, d)
             | Some x \<Rightarrow>
                 if \<not> refcount x > 0 then
                   (Inl (InternalAssert ''op.operatorIterator_->refcount > 0''), d)
                 else if \<not> weak_refcount x > 0 then
                   (Inl (InternalAssert ''op.operatorIterator_->weak_refcount > 0''), d)
                 else
                   (let d1 = decrement_refcounts h d;
                        d2 = (if 0 = refcount x - 1 then notify_deregistered h d1 else d1)
                    in erase_if_unreferenced h op_name d2)))"

subsection \<open>Implementation registration\<close>

definition registerImpl ::
  "operator_name \<Rightarrow> dispatch_key option \<Rightarrow> kernel_function \<Rightarrow> dispatcher \<Rightarrow>
   (error + registration_handle) \<times> dispatcher" where
  "registerImpl op_name dispatch_key kernel_fn d =
     (let (h, d1) = findOrRegisterWithName op_name d in
      case deref d1 h of
        None \<Rightarrow> (Inl InvalidHandle, d1)
      | Some x \<Rightarrow>
          (let kernel_handle = next_addr d1;
               d2 = modify_node h
                      (\<lambda>x. x\<lparr>op := registerKernel dispatch_key kernel_handle kernel_fn (op x)\<rparr>)
                      (d1\<lparr>next_addr := Suc (next_addr d1)\<rparr>);
               d3 = modify_node h (\<lambda>x. x\<lparr>weak_refcount := weak_refcount x + 1\<rparr>) d2
           in (Inr (ImplRegistration h op_name dispatch_key kernel_handle), d3)))"

definition deregisterImpl ::
  "operator_handle \<Rightarrow> operator_name \<Rightarrow> dispatcher \<Rightarrow> (error + unit) \<times> dispatcher" where
  "deregisterImpl h op_name d =
     (case handle_operator_name d h of
        Inl e \<Rightarrow> (Inl e, d)
      | Inr n \<Rightarrow>
          if n \<noteq> op_name then
            (Inl (InternalAssert ''op.operator_name() == op_name''), d)
          else
            (case deref d h of
               None \<Rightarrow> (Inl InvalidHandle, d)
             | Some x \<Rightarrow>
                 if \<not> weak_refcount x > 0 then
                   (Inl (InternalAssert ''op.operatorIterator_->weak_refcount > 0''), d)
                 else
                   erase_if_unreferenced h op_name
                     (modify_node h (\<lambda>x. x\<lparr>weak_refcount := weak_refcount x - 1\<rparr>) d)))"

text \<open>
  The closure returned by \<^verbatim>\<open>registerImpl\<close>: deregister the kernel from the entry, then
  \<^verbatim>\<open>deregisterImpl_\<close>.
\<close>

definition release_impl ::
  "operator_handle \<Rightarrow> operator_name \<Rightarrow> dispatch_key option \<Rightarrow> kernel_token \<Rightarrow> dispatcher \<Rightarrow>
   (error + unit) \<times> dispatcher" where
  "release_impl h op_name dispatch_key kernel_handle d =
     (case deref d h of
        None \<Rightarrow> (Inl InvalidHandle, d)
      | Some x \<Rightarrow>
          (case deregisterKernel dispatch_key kernel_handle (op x) of
             Inl e \<Rightarrow> (Inl e, d)
           | Inr e' \<Rightarrow> deregisterImpl h op_name (modify_node h (\<lambda>x. x\<lparr>op := e'\<rparr>) d)))"

subsection \<open>Backend fallback kernels\<close>

text \<open>
  Modelled from the spec: \<^verbatim>\<open>impl::KernelFunctionTable\<close> (declared outside the excerpt),
  one slot per backend tag holding at most one kernel. \<^verbatim>\<open>setKernel\<close> stores the kernel
  and reports whether the slot was empty; \<^verbatim>\<open>removeKernelIfExists\<close> empties the slot and
  reports whether it was occupied.
\<close>

datatype SetKernelResult = ADDED_NEW_KERNEL | OVERWROTE_EXISTING_KERNEL

datatype RemoveKernelIfExistsResult = REMOVED_KERNEL | KERNEL_DIDNT_EXIST

definition setKernel ::
  "dispatch_key \<Rightarrow> kernel_function \<Rightarrow> (dispatch_key \<rightharpoonup> kernel_function) \<Rightarrow>
   SetKernelResult \<times> (dispatch_key \<rightharpoonup> kernel_function)" where
  "setKernel k f t =
     ((case t k of None \<Rightarrow> ADDED_NEW_KERNEL | Some g \<Rightarrow> OVERWROTE_EXISTING_KERNEL),
      t(k \<mapsto> f))"

definition removeKernelIfExists ::
  "dispatch_key \<Rightarrow> (dispatch_key \<rightharpoonup> kernel_function) \<Rightarrow>
   RemoveKernelIfExistsResult \<times> (dispatch_key \<rightharpoonup> kernel_function)" where
  "removeKernelIfExists k t =
     ((case t k of None \<Rightarrow> KERNEL_DIDNT_EXIST | Some g \<Rightarrow> REMOVED_KERNEL),
      t(k := None))"

text \<open>
  \<^verbatim>\<open>registerFallback\<close> reads \<^verbatim>\<open>kernel.isFallthrough()\<close> after the kernel has been moved
  into the table; the flag read is the one the kernel was passed with.
\<close>

definition registerFallback ::
  "dispatch_key \<Rightarrow> kernel_function \<Rightarrow> dispatcher \<Rightarrow> (error + registration_handle) \<times> dispatcher" where
  "registerFallback dispatchKey kernel_fn d =
     (let (inserted, t) = setKernel dispatchKey kernel_fn (backendFallbackKernels d);
          d1 = d\<lparr>backendFallbackKernels := t\<rparr>
      in if inserted \<noteq> ADDED_NEW_KERNEL then
           (Inl (TorchCheck
              (''Tried to register a backend fallback kernel for '' @ toString_key dispatchKey
               @ '' but there was already one registered.'')), d1)
         else
           (Inr (FallbackRegistration dispatchKey),
            if isFallthrough kernel_fn
            then d1\<lparr>backendsWithoutFallthrough :=
                      remove_key (backendsWithoutFallthrough d1) dispatchKey\<rparr>
            else d1))"

definition deregisterFallback :: "dispatch_key \<Rightarrow> dispatcher \<Rightarrow> (error + unit) \<times> dispatcher" where
  "deregisterFallback dispatchKey d =
     (let (result, t) = removeKernelIfExists dispatchKey (backendFallbackKernels d);
          d1 = d\<lparr>backendFallbackKernels := t\<rparr>;
          d2 = d1\<lparr>backendsWithoutFallthrough :=
                    add_key (backendsWithoutFallthrough d1) dispatchKey\<rparr>
      in if result \<noteq> REMOVED_KERNEL then
           (Inl (InternalAssert
              (''Tried to deregister a backend fallback kernel for '' @ toString_key dispatchKey
               @ '' but there was none registered.'')), d2)
         else (Inr (), d2))"

subsection \<open>Adding a listener\<close>

text \<open>The loop over \<^verbatim>\<open>operators_\<close> that calls the new listener for every node.\<close>

fun replay_registered :: "(operator_handle \<times> operator_def) list \<Rightarrow> listener \<Rightarrow> listener" where
  "replay_registered [] l = l"
| "replay_registered ((i, x) # ns) l = replay_registered ns (onOperatorRegistered i l)"

definition addRegistrationListener :: "listener \<Rightarrow> dispatcher \<Rightarrow> dispatcher" where
  "addRegistrationListener l d =
     d\<lparr>listeners := addListener (replay_registered (operators d) l) (listeners d),
       calls := calls d @ map (\<lambda>(i, x). invoke (length (listeners d)) (OnOperatorRegistered i) i d)
                             (operators d)\<rparr>"

subsection \<open>Reporting a dispatch failure\<close>

text \<open>
  Modelled from the spec: \<^verbatim>\<open>DispatchTable\<close> (declared outside the excerpt), of which
  \<^verbatim>\<open>reportError\<close> reads the operator's name and the printed list of the backends that
  have a kernel.
\<close>

record dispatch_table =
  operatorName :: string
  available_keys :: "dispatch_key list"

fun join_keys :: "dispatch_key list \<Rightarrow> string" where
  "join_keys [] = []"
| "join_keys [k] = toString_key k"
| "join_keys (k # ks) = toString_key k @ '', '' @ join_keys ks"

definition listAllDispatchKeys :: "dispatch_table \<Rightarrow> string" where
  "listAllDispatchKeys t = ''['' @ join_keys (available_keys t) @ '']''"

text \<open>
  \<^verbatim>\<open>reportError\<close> is declared \<^verbatim>\<open>[[noreturn]]\<close>; the model gives it the result type of a
  function that could return, so that its never returning is a property and not a type.
\<close>

definition reportError :: "dispatch_table \<Rightarrow> dispatch_key \<Rightarrow> error + unit" where
  "reportError dispatchTable dispatchKey =
     (if dispatchKey = Undefined then
        Inl (TorchCheck
          (''There were no tensor arguments to this function (e.g., you passed an ''
           @ ''empty list of Tensors), but no fallback function is registered for schema ''
           @ operatorName dispatchTable
           @ ''.  This usually means that this function requires a non-empty list of Tensors.  ''
           @ ''Available functions are '' @ listAllDispatchKeys dispatchTable))
      else
        (let dispatchKeyStr = toString_key dispatchKey
         in Inl (TorchCheck
              (''Could not run '' @ [CHR 0x27] @ operatorName dispatchTable
               @ [CHR 0x27] @ '' with arguments''
               @ '' from the '' @ [CHR 0x27] @ dispatchKeyStr @ [CHR 0x27] @ '' backend. ''
               @ [CHR 0x27] @ operatorName dispatchTable
               @ [CHR 0x27] @ '' is only available for these backends: ''
               @ listAllDispatchKeys dispatchTable @ ''.''))))"

subsection \<open>Clients of the dispatcher\<close>

text \<open>
  A client holds registration handles and, a handle running its closure exactly once,
  disposes of each at most once. The system state is the dispatcher together with the
  handles that are alive; disposing of a handle that is not alive does nothing. Running
  the closure of a handle removes the handle whatever the closure does. A reachable state
  is \<open>run ops\<close> for a list \<open>ops\<close> of operations on the fresh dispatcher.
\<close>

record system =
  disp :: dispatcher
  live :: "registration_handle list"

definition initial :: system where
  "initial = \<lparr>disp = Dispatcher, live = []\<rparr>"

fun release :: "registration_handle \<Rightarrow> dispatcher \<Rightarrow> (error + unit) \<times> dispatcher" where
  "release (DefRegistration h n) d = deregisterDef h n d"
| "release (ImplRegistration h n k t) d = release_impl h n k t d"
| "release (FallbackRegistration k) d = deregisterFallback k d"

datatype operation =
    RegisterDef function_schema
  | RegisterImpl operator_name "dispatch_key option" kernel_function
  | RegisterFallback dispatch_key kernel_function
  | AddRegistrationListener listener
  | Dispose registration_handle

definition acquire :: "(error + registration_handle) \<times> dispatcher \<Rightarrow> system \<Rightarrow> system" where
  "acquire r s =
     (case r of
        (Inl e, d) \<Rightarrow> s\<lparr>disp := d\<rparr>
      | (Inr h, d) \<Rightarrow> \<lparr>disp = d, live = live s @ [h]\<rparr>)"

fun step :: "system \<Rightarrow> operation \<Rightarrow> system" where
  "step s (RegisterDef schema) = acquire (registerDef schema (disp s)) s"
| "step s (RegisterImpl n k f) = acquire (registerImpl n k f (disp s)) s"
| "step s (RegisterFallback k f) = acquire (registerFallback k f (disp s)) s"
| "step s (AddRegistrationListener l) = s\<lparr>disp := addRegistrationListener l (disp s)\<rparr>"
| "step s (Dispose h) =
     (if h \<in> set (live s)
      then \<lparr>disp = snd (release h (disp s)), live = remove1 h (live s)\<rparr>
      else s)"

definition run :: "operation list \<Rightarrow> system" where
  "run ops = foldl step initial ops"

subsection \<open>Auxiliary definitions for the properties\<close>

text \<open>
  The state that a successful \<open>registerDef\<close> leaves when the name is already present
  with node \<open>x\<close> and schema \<open>fs\<close>.
\<close>

definition registered_again ::
  "function_schema \<Rightarrow> operator_handle \<Rightarrow> operator_def \<Rightarrow> function_schema \<Rightarrow>
   dispatcher \<Rightarrow> dispatcher" where
  "registered_again s h x fs d =
     (let d1 = (if aliasAnalysis s \<noteq> DEFAULT_KIND \<and> aliasAnalysis fs = DEFAULT_KIND
                then modify_node h
                       (\<lambda>x. x\<lparr>op := updateSchemaAliasAnalysis (aliasAnalysis s) (op x)\<rparr>) d
                else d);
          d2 = increment_refcounts h d1
      in if refcount x = 0 then notify_registered h d2 else d2)"

text \<open>The nodes of \<open>operators\<close> after \<open>modify_node\<close> and \<open>erase_node\<close>.\<close>

definition modify_nodes ::
  "operator_handle \<Rightarrow> (operator_def \<Rightarrow> operator_def) \<Rightarrow>
   (operator_handle \<times> operator_def) list \<Rightarrow> (operator_handle \<times> operator_def) list" where
  "modify_nodes h f ns = map (\<lambda>(i, x). if i = h then (i, f x) else (i, x)) ns"

definition erase_nodes ::
  "operator_handle \<Rightarrow> (operator_handle \<times> operator_def) list \<Rightarrow>
   (operator_handle \<times> operator_def) list" where
  "erase_nodes h ns = filter (\<lambda>(i, x). i \<noteq> h) ns"

text \<open>
  The node and the name a registration handle refers to, and the live handles that refer
  to a node: the definition registrations, and the kernels of the implementation
  registrations.
\<close>

fun handle_node :: "registration_handle \<Rightarrow> operator_handle option" where
  "handle_node (DefRegistration h n) = Some h"
| "handle_node (ImplRegistration h n k t) = Some h"
| "handle_node (FallbackRegistration k) = None"

fun handle_name :: "registration_handle \<Rightarrow> operator_name option" where
  "handle_name (DefRegistration h n) = Some n"
| "handle_name (ImplRegistration h n k t) = Some n"
| "handle_name (FallbackRegistration k) = None"

fun is_def :: "operator_handle \<Rightarrow> registration_handle \<Rightarrow> bool" where
  "is_def i (DefRegistration h n) = (h = i)"
| "is_def i (ImplRegistration h n k t) = False"
| "is_def i (FallbackRegistration k) = False"

fun impl_kernel ::
  "operator_handle \<Rightarrow> registration_handle \<Rightarrow> (dispatch_key option \<times> kernel_token) list" where
  "impl_kernel i (DefRegistration h n) = []"
| "impl_kernel i (ImplRegistration h n k t) = (if h = i then [(k, t)] else [])"
| "impl_kernel i (FallbackRegistration k) = []"

definition live_defs :: "operator_handle \<Rightarrow> registration_handle list \<Rightarrow> nat" where
  "live_defs i rs = length (filter (is_def i) rs)"

definition impl_kernels ::
  "operator_handle \<Rightarrow> registration_handle list \<Rightarrow> (dispatch_key option \<times> kernel_token) list" where
  "impl_kernels i rs = concat (map (impl_kernel i) rs)"

definition live_impls :: "operator_handle \<Rightarrow> registration_handle list \<Rightarrow> nat" where
  "live_impls i rs = length (impl_kernels i rs)"

text \<open>
  The counters of every node agree with the live handles: the statement of the
  reference-count invariant.
\<close>

definition refcounts_ok :: "system \<Rightarrow> bool" where
  "refcounts_ok s =
     (\<forall>(i, x) \<in> set (operators (disp s)).
        0 \<le> refcount x \<and> refcount x \<le> weak_refcount x
        \<and> refcount x = live_defs i (live s)
        \<and> weak_refcount x = refcount x + live_impls i (live s))"

text \<open>The backend tags and addresses of the kernels of a node.\<close>

definition kernel_refs :: "operator_def \<Rightarrow> (dispatch_key option \<times> kernel_token) list" where
  "kernel_refs x = map (\<lambda>(k, t, f). (k, t)) (kernels (op x))"

text \<open>
  The invariant of the reachable states. For every node: its address has been allocated,
  the lookup table maps its name to it, its counters count the live handles, it is
  referenced, its kernels are those of the live implementation registrations, and it has
  a schema of its own name once a definition is registered. Every name in the lookup
  table and every live handle refers to a node of that name.
\<close>

definition node_ok ::
  "(operator_name \<rightharpoonup> operator_handle) \<Rightarrow> nat \<Rightarrow> registration_handle list \<Rightarrow>
   operator_handle \<times> operator_def \<Rightarrow> bool" where
  "node_ok tbl na rs p =
     (case p of (i, x) \<Rightarrow>
        i < na \<and> tbl (entry_name (op x)) = Some i
        \<and> refcount x = live_defs i rs
        \<and> weak_refcount x = refcount x + live_impls i rs
        \<and> 0 < weak_refcount x
        \<and> mset (kernel_refs x) = mset (impl_kernels i rs)
        \<and> (\<forall>s. entry_schema (op x) = Some s \<longrightarrow> operator_name s = entry_name (op x))
        \<and> (0 < refcount x \<longrightarrow> entry_schema (op x) \<noteq> None))"

definition handle_ok ::
  "(operator_handle \<times> operator_def) list \<Rightarrow> registration_handle \<Rightarrow> bool" where
  "handle_ok ns r =
     (case handle_node r of
        None \<Rightarrow> True
      | Some h \<Rightarrow> (\<exists>x. (h, x) \<in> set ns \<and> handle_name r = Some (entry_name (op x))))"

definition inv_core ::
  "(operator_handle \<times> operator_def) list \<Rightarrow> (operator_name \<rightharpoonup> operator_handle) \<Rightarrow> nat \<Rightarrow>
   registration_handle list \<Rightarrow> bool" where
  "inv_core ns tbl na rs =
     (distinct (map fst ns)
      \<and> (\<forall>p \<in> set ns. node_ok tbl na rs p)
      \<and> (\<forall>n i. tbl n = Some i \<longrightarrow> (\<exists>x. (i, x) \<in> set ns \<and> entry_name (op x) = n))
      \<and> (\<forall>r \<in> set rs. handle_ok ns r))"

definition invariant :: "system \<Rightarrow> bool" where
  "invariant s =
     inv_core (operators (disp s)) (operatorLookupTable (disp s)) (next_addr (disp s)) (live s)"

text \<open>The name an operation registers, if it registers one.\<close>

fun registers :: "operation \<Rightarrow> operator_name option" where
  "registers (RegisterDef schema) = Some (operator_name schema)"
| "registers (RegisterImpl n k f) = Some n"
| "registers (RegisterFallback k f) = None"
| "registers (AddRegistrationListener l) = None"
| "registers (Dispose r) = None"

text \<open>
  A list of listeners extends another when it keeps every listener at its position and
  each of them has only received further calls.
\<close>

definition extends :: "listener list \<Rightarrow> listener list \<Rightarrow> bool" where
  "extends ls ls' = (length ls \<le> length ls' \<and> (\<forall>i < length ls. prefix (ls ! i) (ls' ! i)))"

section \<open>Properties\<close>

subsection \<open>Nodes\<close>

lemma deref_modify_node:
  "deref (modify_node h f d) h' = (if h' = h then map_option f (deref d h) else deref d h')"
proof -
  have "map_of (map (\<lambda>(i, x). if i = h then (i, f x) else (i, x)) xs) h' =
        (if h' = h then map_option f (map_of xs h) else map_of xs h')" for xs
    by (induction xs) auto
  then show ?thesis by (simp add: deref_def modify_node_def)
qed

lemma modify_node_fields [simp]:
  "operatorLookupTable (modify_node h f d) = operatorLookupTable d"
  "backendFallbackKernels (modify_node h f d) = backendFallbackKernels d"
  "backendsWithoutFallthrough (modify_node h f d) = backendsWithoutFallthrough d"
  "listeners (modify_node h f d) = listeners d"
  "next_addr (modify_node h f d) = next_addr d"
  "calls (modify_node h f d) = calls d"
  by (simp_all add: modify_node_def)

subsection \<open>Backend fallbacks\<close>

text \<open>
  C4, as stated, fails: registering a kernel that is not a fallthrough for the backend
  \<open>CPU\<close> on a fresh dispatcher succeeds and leaves \<open>CPU\<close> in
  \<open>backendsWithoutFallthrough\<close>.
\<close>

theorem registerFallback_counterexample:
  "fst (registerFallback (Backend ''CPU'') \<lparr>callable = 0, isFallthrough = False\<rparr> Dispatcher)
     = Inr (FallbackRegistration (Backend ''CPU''))
   \<and> Backend ''CPU'' \<in> backendsWithoutFallthrough
        (snd (registerFallback (Backend ''CPU'') \<lparr>callable = 0, isFallthrough = False\<rparr> Dispatcher))"
  by (simp add: registerFallback_def setKernel_def Dispatcher_def FULL_def)

text \<open>
  C4, amended: \<open>registerFallback\<close> fails with the duplicate-fallback error whenever a
  fallback kernel already exists for the backend tag; otherwise it installs the kernel
  and clears the tag from \<open>backendsWithoutFallthrough\<close> if the kernel is a fallthrough,
  leaving the set as it was if the kernel is not a fallthrough.
\<close>

theorem registerFallback_clears_on_fallthrough:
  "(backendFallbackKernels d k \<noteq> None \<longrightarrow>
      fst (registerFallback k f d) =
        Inl (TorchCheck (''Tried to register a backend fallback kernel for '' @ toString_key k
                         @ '' but there was already one registered.'')))
   \<and> (backendFallbackKernels d k = None \<longrightarrow>
        fst (registerFallback k f d) = Inr (FallbackRegistration k)
        \<and> backendFallbackKernels (snd (registerFallback k f d)) = (backendFallbackKernels d)(k \<mapsto> f)
        \<and> backendsWithoutFallthrough (snd (registerFallback k f d)) =
            (if isFallthrough f then backendsWithoutFallthrough d - {k}
             else backendsWithoutFallthrough d))"
  by (auto simp add: registerFallback_def setKernel_def remove_key_def split: option.splits)

theorem registerFallback_clears_on_fallthrough_witness:
  "fst (registerFallback (Backend ''CPU'') \<lparr>callable = 0, isFallthrough = True\<rparr> Dispatcher)
     = Inr (FallbackRegistration (Backend ''CPU''))
   \<and> Backend ''CPU'' \<notin> backendsWithoutFallthrough
        (snd (registerFallback (Backend ''CPU'') \<lparr>callable = 0, isFallthrough = True\<rparr> Dispatcher))
   \<and> (\<exists>msg. fst (registerFallback (Backend ''CPU'') \<lparr>callable = 1, isFallthrough = False\<rparr>
        (snd (registerFallback (Backend ''CPU'') \<lparr>callable = 0, isFallthrough = True\<rparr> Dispatcher)))
        = Inl (TorchCheck msg))"
proof -
  let ?f = "\<lparr>callable = 0, isFallthrough = True\<rparr>"
  let ?d1 = "snd (registerFallback (Backend ''CPU'') ?f Dispatcher)"
  have e: "backendFallbackKernels Dispatcher (Backend ''CPU'') = None"
    by (simp add: Dispatcher_def)
  note t = registerFallback_clears_on_fallthrough [of Dispatcher "Backend ''CPU''" ?f]
  have a: "fst (registerFallback (Backend ''CPU'') ?f Dispatcher)
             = Inr (FallbackRegistration (Backend ''CPU''))"
    using t e by blast
  have b: "backendsWithoutFallthrough ?d1
             = backendsWithoutFallthrough Dispatcher - {Backend ''CPU''}"
    using t e by simp
  have c: "backendFallbackKernels ?d1 (Backend ''CPU'') \<noteq> None"
    using t e by simp
  show ?thesis
    using a b c
      registerFallback_clears_on_fallthrough
        [of ?d1 "Backend ''CPU''" "\<lparr>callable = 1, isFallthrough = False\<rparr>"]
    by simp
qed

subsection \<open>Dispatch failures\<close>

text \<open>
  C10: \<open>reportError\<close> never returns normally. For every table and backend tag the result
  is a failure whose message contains the operator's name and the list of the operator's
  available backends, and the failure for the undefined tag differs from the failure for
  any concrete tag.
\<close>

theorem reportError_never_returns:
  "(\<exists>msg. reportError t k = Inl (TorchCheck msg) \<and> sublist (listAllDispatchKeys t) msg
          \<and> sublist (operatorName t) msg)
   \<and> reportError t (Backend b) \<noteq> reportError t' Undefined"
proof (intro conjI)
  show "\<exists>msg. reportError t k = Inl (TorchCheck msg) \<and> sublist (listAllDispatchKeys t) msg
          \<and> sublist (operatorName t) msg"
  proof (cases "k = Undefined")
    case True
    define p where "p = ''There were no tensor arguments to this function (e.g., you passed an ''
           @ ''empty list of Tensors), but no fallback function is registered for schema ''"
    define q where "q = ''.  This usually means that this function requires a non-empty list of Tensors.  ''
           @ ''Available functions are ''"
    have "reportError t k = Inl (TorchCheck (p @ operatorName t @ q @ listAllDispatchKeys t))"
      using True by (simp add: reportError_def p_def q_def)
    moreover have "sublist (listAllDispatchKeys t) (p @ operatorName t @ q @ listAllDispatchKeys t)"
      unfolding sublist_def
      by (rule exI [of _ "p @ operatorName t @ q"], rule exI [of _ "[]"]) simp
    moreover have "sublist (operatorName t) (p @ operatorName t @ q @ listAllDispatchKeys t)"
      by (rule sublist_appendI)
    ultimately show ?thesis by blast
  next
    case False
    define p where "p = ''Could not run '' @ [CHR 0x27]"
    define q where "q = [CHR 0x27] @ '' with arguments'' @ '' from the '' @ [CHR 0x27]
        @ toString_key k @ [CHR 0x27] @ '' backend. '' @ [CHR 0x27] @ operatorName t
        @ [CHR 0x27] @ '' is only available for these backends: ''"
    have "reportError t k
            = Inl (TorchCheck (p @ operatorName t @ q @ listAllDispatchKeys t @ ''.''))"
      using False by (simp add: reportError_def p_def q_def)
    moreover have "sublist (listAllDispatchKeys t)
                     (p @ operatorName t @ q @ listAllDispatchKeys t @ ''.'')"
      unfolding sublist_def
      by (rule exI [of _ "p @ operatorName t @ q"], rule exI [of _ "''.''"]) simp
    moreover have "sublist (operatorName t)
                     (p @ operatorName t @ q @ listAllDispatchKeys t @ ''.'')"
      by (rule sublist_appendI)
    ultimately show ?thesis by blast
  qed
  show "reportError t (Backend b) \<noteq> reportError t' Undefined"
    by (simp add: reportError_def)
qed

lemma deref_simps [simp]:
  "deref (d\<lparr>listeners := ls\<rparr>) = deref d"
  "deref (d\<lparr>operatorLookupTable := t\<rparr>) = deref d"
  "deref (d\<lparr>next_addr := n\<rparr>) = deref d"
  "deref (d\<lparr>calls := c\<rparr>) = deref d"
  by (simp_all add: deref_def fun_eq_iff)

lemma notify_fields [simp]:
  "operators (notify_registered h d) = operators d"
  "operatorLookupTable (notify_registered h d) = operatorLookupTable d"
  "next_addr (notify_registered h d) = next_addr d"
  "listeners (notify_registered h d) = callOnOperatorRegistered h (listeners d)"
  "deref (notify_registered h d) = deref d"
  "operators (notify_deregistered h d) = operators d"
  "operatorLookupTable (notify_deregistered h d) = operatorLookupTable d"
  "next_addr (notify_deregistered h d) = next_addr d"
  "listeners (notify_deregistered h d) = callOnOperatorDeregistered h (listeners d)"
  "deref (notify_deregistered h d) = deref d"
  by (simp_all add: notify_registered_def notify_deregistered_def deref_def fun_eq_iff)

lemma deref_increment_refcounts:
  "deref (increment_refcounts h d) h' =
     (if h' = h
      then map_option
             (\<lambda>x. x\<lparr>refcount := refcount x + 1, weak_refcount := weak_refcount x + 1\<rparr>)
             (deref d h)
      else deref d h')"
  by (cases "deref d h") (simp_all add: increment_refcounts_def deref_modify_node)

lemma increment_refcounts_fields [simp]:
  "operatorLookupTable (increment_refcounts h d) = operatorLookupTable d"
  "backendFallbackKernels (increment_refcounts h d) = backendFallbackKernels d"
  "backendsWithoutFallthrough (increment_refcounts h d) = backendsWithoutFallthrough d"
  "listeners (increment_refcounts h d) = listeners d"
  "next_addr (increment_refcounts h d) = next_addr d"
  "calls (increment_refcounts h d) = calls d"
  by (simp_all add: increment_refcounts_def)

subsection \<open>Registering a definition for a name that is present\<close>

lemma findOrRegisterWithSchema_found:
  assumes "findSchema d (operator_name s) = Some h" "deref d h = Some x"
      "entry_schema (op x) = Some fs"
  shows "findOrRegisterWithSchema s d =
     (if schema_neq fs s then (Inl (TorchCheck (conflict_message s fs)), d)
      else if aliasAnalysis s = DEFAULT_KIND then (Inr h, d)
      else if aliasAnalysis fs = DEFAULT_KIND then
        (Inr h,
         modify_node h (\<lambda>x. x\<lparr>op := updateSchemaAliasAnalysis (aliasAnalysis s) (op x)\<rparr>) d)
      else if aliasAnalysis fs = aliasAnalysis s then (Inr h, d)
      else (Inl (TorchCheck (alias_message s)), d))"
  using assms
  by (simp add: findOrRegisterWithSchema_def handle_schema_def schema_of_def
      isDefaultAliasAnalysisKind_def)

lemma registerDef_found:
  assumes "findSchema d (operator_name s) = Some h" "deref d h = Some x"
      "entry_schema (op x) = Some fs"
  shows "registerDef s d =
     (if schema_neq fs s then (Inl (TorchCheck (conflict_message s fs)), d)
      else if aliasAnalysis s \<noteq> DEFAULT_KIND \<and> aliasAnalysis fs \<noteq> DEFAULT_KIND
              \<and> aliasAnalysis fs \<noteq> aliasAnalysis s
        then (Inl (TorchCheck (alias_message s)), d)
      else (Inr (DefRegistration h (operator_name s)), registered_again s h x fs d))"
  using assms
  by (simp add: registerDef_def findOrRegisterWithSchema_found [OF assms] registered_again_def
      deref_increment_refcounts deref_modify_node Let_def)

lemma deref_registered_again:
  assumes "deref d h = Some x"
  shows "deref (registered_again s h x fs d) h =
     Some (x\<lparr>op := (if aliasAnalysis s \<noteq> DEFAULT_KIND \<and> aliasAnalysis fs = DEFAULT_KIND
                    then updateSchemaAliasAnalysis (aliasAnalysis s) (op x) else op x),
             refcount := refcount x + 1, weak_refcount := weak_refcount x + 1\<rparr>)"
  using assms
  by (simp add: registered_again_def Let_def deref_increment_refcounts deref_modify_node)

lemma registered_again_lookup [simp]:
  "operatorLookupTable (registered_again s h x fs d) = operatorLookupTable d"
  by (simp add: registered_again_def Let_def)



text \<open>
  C5: when \<open>registerDef\<close> finds the name present with a schema \<open>fs\<close> that the schema
  comparison finds equal to the new schema \<open>s\<close>: if \<open>s\<close> has the default kind the
  registration succeeds and the entry keeps the schema \<open>fs\<close> with its kind; if \<open>s\<close> has
  a concrete kind and \<open>fs\<close> the default kind the registration succeeds and the entry
  ends up with the kind of \<open>s\<close>; if both kinds are concrete the registration succeeds
  with the entry's schema unchanged when the kinds are equal and fails otherwise,
  leaving the dispatcher as it was.
\<close>

theorem registerDef_alias_analysis:
  assumes "findSchema d (operator_name s) = Some h" and "deref d h = Some x"
    and "entry_schema (op x) = Some fs" and "\<not> schema_neq fs s"
  shows "(aliasAnalysis s = DEFAULT_KIND \<longrightarrow>
            (\<exists>d' x'. registerDef s d = (Inr (DefRegistration h (operator_name s)), d')
                 \<and> deref d' h = Some x' \<and> entry_schema (op x') = Some fs))
       \<and> (aliasAnalysis s \<noteq> DEFAULT_KIND \<and> aliasAnalysis fs = DEFAULT_KIND \<longrightarrow>
            (\<exists>d' x'. registerDef s d = (Inr (DefRegistration h (operator_name s)), d')
                 \<and> deref d' h = Some x'
                 \<and> entry_schema (op x') = Some (fs\<lparr>aliasAnalysis := aliasAnalysis s\<rparr>)))
       \<and> (aliasAnalysis s \<noteq> DEFAULT_KIND \<and> aliasAnalysis fs \<noteq> DEFAULT_KIND \<longrightarrow>
            (if aliasAnalysis fs = aliasAnalysis s
             then (\<exists>d' x'. registerDef s d = (Inr (DefRegistration h (operator_name s)), d')
                     \<and> deref d' h = Some x' \<and> entry_schema (op x') = Some fs)
             else registerDef s d = (Inl (TorchCheck (alias_message s)), d)))"
proof -
  note r = registerDef_found [OF assms(1,2,3)]
  note g = deref_registered_again [OF assms(2), of s fs]
  have 1: ?thesis if "aliasAnalysis s = DEFAULT_KIND"
    using that r g assms(3,4) by simp
  have 2: ?thesis if "aliasAnalysis s \<noteq> DEFAULT_KIND" "aliasAnalysis fs = DEFAULT_KIND"
    using that r g assms(3,4) by (simp add: updateSchemaAliasAnalysis_def)
  have 3: ?thesis if "aliasAnalysis s \<noteq> DEFAULT_KIND" "aliasAnalysis fs \<noteq> DEFAULT_KIND"
    using that r g assms(3,4) by simp
  from 1 2 3 show ?thesis by blast
qed

theorem registerDef_alias_analysis_witness:
  "(\<exists>d' x'. registerDef \<lparr>operator_name = (''mul'', ''''), signature = ''(a, b)'', aliasAnalysis = KIND 1\<rparr>
       (disp (run [RegisterDef \<lparr>operator_name = (''mul'', ''''), signature = ''(a, b)'',
                                aliasAnalysis = DEFAULT_KIND\<rparr>]))
      = (Inr (DefRegistration 0 (''mul'', '''')), d')
      \<and> deref d' 0 = Some x'
      \<and> entry_schema (op x')
          = Some \<lparr>operator_name = (''mul'', ''''), signature = ''(a, b)'', aliasAnalysis = KIND 1\<rparr>)
   \<and> fst (registerDef \<lparr>operator_name = (''mul'', ''''), signature = ''(a, b)'', aliasAnalysis = KIND 2\<rparr>
        (disp (run [RegisterDef \<lparr>operator_name = (''mul'', ''''), signature = ''(a, b)'',
                                 aliasAnalysis = KIND 1\<rparr>])))
     = Inl (TorchCheck (alias_message
         \<lparr>operator_name = (''mul'', ''''), signature = ''(a, b)'', aliasAnalysis = KIND 2\<rparr>))"
proof -
  let ?s0 = "\<lparr>operator_name = (''mul'', ''''), signature = ''(a, b)'', aliasAnalysis = DEFAULT_KIND\<rparr>"
  let ?s1 = "\<lparr>operator_name = (''mul'', ''''), signature = ''(a, b)'', aliasAnalysis = KIND 1\<rparr>"
  let ?s2 = "\<lparr>operator_name = (''mul'', ''''), signature = ''(a, b)'', aliasAnalysis = KIND 2\<rparr>"
  let ?x0 = "\<lparr>op = \<lparr>entry_name = (''mul'', ''''), entry_schema = Some ?s0, kernels = []\<rparr>,
              refcount = 1, weak_refcount = 1\<rparr>"
  let ?x1 = "\<lparr>op = \<lparr>entry_name = (''mul'', ''''), entry_schema = Some ?s1, kernels = []\<rparr>,
              refcount = 1, weak_refcount = 1\<rparr>"
  let ?d0 = "disp (run [RegisterDef ?s0])"
  let ?d1 = "disp (run [RegisterDef ?s1])"
  have f0: "findSchema ?d0 (operator_name ?s1) = Some 0" by code_simp
  have g0: "deref ?d0 0 = Some ?x0" by code_simp
  have e0: "entry_schema (op ?x0) = Some ?s0" by simp
  have n0: "\<not> schema_neq ?s0 ?s1" by (simp add: schema_neq_def)
  have f1: "findSchema ?d1 (operator_name ?s2) = Some 0" by code_simp
  have g1: "deref ?d1 0 = Some ?x1" by code_simp
  have e1: "entry_schema (op ?x1) = Some ?s1" by simp
  have n1: "\<not> schema_neq ?s1 ?s2" by (simp add: schema_neq_def)
  from registerDef_alias_analysis [OF f0 g0 e0 n0]
  have a: "\<exists>d' x'. registerDef ?s1 ?d0 = (Inr (DefRegistration 0 (''mul'', '''')), d')
      \<and> deref d' 0 = Some x' \<and> entry_schema (op x') = Some ?s1"
    by simp
  from registerDef_alias_analysis [OF f1 g1 e1 n1]
  have b: "fst (registerDef ?s2 ?d1) = Inl (TorchCheck (alias_message ?s2))"
    by simp
  from a b show ?thesis by blast
qed

lemma operators_modify_node [simp]:
  "operators (modify_node h f d) = modify_nodes h f (operators d)"
  by (simp add: modify_node_def modify_nodes_def)

lemma operators_erase_node [simp]:
  "operators (erase_node h d) = erase_nodes h (operators d)"
  by (simp add: erase_node_def erase_nodes_def)

lemma erase_node_fields [simp]:
  "operatorLookupTable (erase_node h d) = operatorLookupTable d"
  "listeners (erase_node h d) = listeners d"
  "next_addr (erase_node h d) = next_addr d"
  "calls (erase_node h d) = calls d"
  by (simp_all add: erase_node_def)

lemma modify_nodes_comp:
  "modify_nodes h f (modify_nodes h g ns) = modify_nodes h (f \<circ> g) ns"
  by (induction ns) (auto simp add: modify_nodes_def)

lemma map_fst_modify_nodes [simp]: "map fst (modify_nodes h f ns) = map fst ns"
  by (induction ns) (auto simp add: modify_nodes_def)

lemma set_modify_nodes:
  "set (modify_nodes h f ns) = (\<lambda>(i, x). if i = h then (i, f x) else (i, x)) ` set ns"
  by (simp add: modify_nodes_def)

lemma set_erase_nodes: "set (erase_nodes h ns) = {p \<in> set ns. fst p \<noteq> h}"
  by (auto simp add: erase_nodes_def)

lemma distinct_erase_nodes: "distinct (map fst ns) \<Longrightarrow> distinct (map fst (erase_nodes h ns))"
  by (simp add: erase_nodes_def distinct_map_filter)

lemma remove1_split:
  assumes "r \<in> set rs"
  obtains ys zs where "rs = ys @ r # zs" "remove1 r rs = ys @ zs"
proof -
  from split_list_first [OF assms] obtain ys zs where "rs = ys @ r # zs" "r \<notin> set ys"
    by blast
  then have "remove1 r rs = ys @ zs" by (simp add: remove1_append)
  with \<open>rs = ys @ r # zs\<close> show ?thesis using that by blast
qed

lemma live_defs_remove1:
  assumes "r \<in> set rs"
  shows "live_defs i (remove1 r rs) = live_defs i rs - (if is_def i r then 1 else 0)"
proof -
  from assms obtain ys zs where "rs = ys @ r # zs" "remove1 r rs = ys @ zs"
    by (rule remove1_split)
  then show ?thesis by (simp add: live_defs_def)
qed

lemma mset_impl_kernels_remove1:
  assumes "r \<in> set rs"
  shows "mset (impl_kernels i (remove1 r rs)) = mset (impl_kernels i rs) - mset (impl_kernel i r)"
proof -
  from assms obtain ys zs where "rs = ys @ r # zs" "remove1 r rs = ys @ zs"
    by (rule remove1_split)
  then show ?thesis by (simp add: impl_kernels_def)
qed

lemma live_impls_remove1:
  assumes "r \<in> set rs"
  shows "live_impls i (remove1 r rs) = live_impls i rs - length (impl_kernel i r)"
proof -
  from assms obtain ys zs where "rs = ys @ r # zs" "remove1 r rs = ys @ zs"
    by (rule remove1_split)
  then show ?thesis by (simp add: live_impls_def impl_kernels_def)
qed

lemma impl_kernel_in: "ImplRegistration h n k t \<in> set rs \<Longrightarrow> (k, t) \<in> set (impl_kernels h rs)"
  by (auto simp add: impl_kernels_def intro!: bexI [of _ "ImplRegistration h n k t"])

lemma live_defs_append: "live_defs i (rs @ [r]) = live_defs i rs + (if is_def i r then 1 else 0)"
  by (simp add: live_defs_def)

lemma impl_kernels_append: "impl_kernels i (rs @ [r]) = impl_kernels i rs @ impl_kernel i r"
  by (simp add: impl_kernels_def)

lemma live_impls_append: "live_impls i (rs @ [r]) = live_impls i rs + length (impl_kernel i r)"
  by (simp add: live_impls_def impl_kernels_def)

lemma other_node:
  "handle_node r = Some h \<Longrightarrow> i \<noteq> h \<Longrightarrow> \<not> is_def i r \<and> impl_kernel i r = []"
  by (cases r) auto

lemma no_node:
  "handle_node r = None \<Longrightarrow> \<not> is_def i r \<and> impl_kernel i r = []"
  by (cases r) auto

lemma this_node:
  "handle_node r = Some h \<Longrightarrow> length (impl_kernel h r) + (if is_def h r then 1 else 0) = 1"
  by (cases r) auto

lemma unreferenced:
  "\<forall>r \<in> set rs. handle_node r \<noteq> Some i \<Longrightarrow> live_defs i rs = 0 \<and> impl_kernels i rs = []"
proof (induction rs)
  case Nil
  then show ?case by (simp add: live_defs_def impl_kernels_def)
next
  case (Cons r rs)
  then have "handle_node r \<noteq> Some i" by simp
  then have "\<not> is_def i r \<and> impl_kernel i r = []" by (cases r) auto
  with Cons show ?case by (simp add: live_defs_def impl_kernels_def)
qed

lemma referenced:
  assumes "0 < live_defs i rs + live_impls i rs"
  shows "\<exists>r \<in> set rs. handle_node r = Some i"
proof (rule ccontr)
  assume "\<not> (\<exists>r \<in> set rs. handle_node r = Some i)"
  then have "live_defs i rs = 0 \<and> impl_kernels i rs = []"
    using unreferenced [of rs i] by blast
  with assms show False by (simp add: live_impls_def)
qed

lemma inv_coreD:
  assumes "inv_core ns tbl na rs"
  shows "distinct (map fst ns)"
    and "\<And>p. p \<in> set ns \<Longrightarrow> node_ok tbl na rs p"
    and "\<And>n i. tbl n = Some i \<Longrightarrow> \<exists>x. (i, x) \<in> set ns \<and> entry_name (op x) = n"
    and "\<And>r. r \<in> set rs \<Longrightarrow> handle_ok ns r"
  using assms unfolding inv_core_def by blast+

lemma inv_coreI:
  assumes "distinct (map fst ns)"
    and "\<And>p. p \<in> set ns \<Longrightarrow> node_ok tbl na rs p"
    and "\<And>n i. tbl n = Some i \<Longrightarrow> \<exists>x. (i, x) \<in> set ns \<and> entry_name (op x) = n"
    and "\<And>r. r \<in> set rs \<Longrightarrow> handle_ok ns r"
  shows "inv_core ns tbl na rs"
  using assms unfolding inv_core_def by blast

lemma inv_core_fresh:
  assumes "inv_core ns tbl na rs"
  shows "na \<notin> fst ` set ns" and "\<forall>r \<in> set rs. handle_node r \<noteq> Some na"
proof -
  show a: "na \<notin> fst ` set ns"
    using assms by (fastforce simp add: inv_core_def node_ok_def)
  show "\<forall>r \<in> set rs. handle_node r \<noteq> Some na"
  proof
    fix r assume "r \<in> set rs"
    then have "handle_ok ns r" using assms by (simp add: inv_core_def)
    then show "handle_node r \<noteq> Some na"
      using a by (force simp add: handle_ok_def split: option.splits)
  qed
qed

lemma inv_add_node:
  assumes inv: "inv_core ns tbl na rs"
    and absent: "tbl (entry_name (op x)) = None"
    and r: "handle_node r = Some na" "handle_name r = Some (entry_name (op x))"
    and x: "refcount x = (if is_def na r then 1 else 0)" "weak_refcount x = 1"
      "kernel_refs x = impl_kernel na r"
      "\<forall>s. entry_schema (op x) = Some s \<longrightarrow> operator_name s = entry_name (op x)"
      "0 < refcount x \<longrightarrow> entry_schema (op x) \<noteq> None"
    and na: "na < na'"
  shows "inv_core (ns @ [(na, x)]) (tbl(entry_name (op x) \<mapsto> na)) na' (rs @ [r])"
proof -
  note fresh = inv_core_fresh [OF inv]
  have unref: "live_defs na rs = 0" "impl_kernels na rs = []"
    using unreferenced [OF fresh(2)] by simp_all
  have old: "node_ok (tbl(entry_name (op x) \<mapsto> na)) na' (rs @ [r]) p" if "p \<in> set ns" for p
  proof -
    obtain i y where p: "p = (i, y)" by (cases p)
    have ok: "node_ok tbl na rs (i, y)" using inv that p by (simp add: inv_core_def)
    have "i \<noteq> na" using fresh(1) that p by force
    then have o: "\<not> is_def i r" "impl_kernel i r = []"
      using other_node [OF r(1)] by simp_all
    have "entry_name (op y) \<noteq> entry_name (op x)"
      using ok absent by (auto simp add: node_ok_def)
    then show ?thesis
      using ok o na
      by (auto simp add: p node_ok_def live_defs_append impl_kernels_append live_impls_append)
  qed
  have new: "node_ok (tbl(entry_name (op x) \<mapsto> na)) na' (rs @ [r]) (na, x)"
    using x unref this_node [OF r(1)] na
    by (auto simp add: node_ok_def live_defs_append impl_kernels_append live_impls_def)
  have tbl: "\<exists>y. (i, y) \<in> set (ns @ [(na, x)]) \<and> entry_name (op y) = n"
    if "(tbl(entry_name (op x) \<mapsto> na)) n = Some i" for n i
  proof (cases "n = entry_name (op x)")
    case True
    then show ?thesis using that by auto
  next
    case False
    then have "tbl n = Some i" using that by simp
    from inv_coreD(3) [OF inv this] show ?thesis by auto
  qed
  have hs: "handle_ok (ns @ [(na, x)]) r'" if "r' \<in> set (rs @ [r])" for r'
  proof (cases "r' = r")
    case True
    then show ?thesis using r by (auto simp add: handle_ok_def)
  next
    case False
    then have "handle_ok ns r'" using that inv by (simp add: inv_core_def)
    then show ?thesis by (auto simp add: handle_ok_def split: option.splits)
  qed
  show ?thesis
  proof (rule inv_coreI)
    show "distinct (map fst (ns @ [(na, x)]))"
      using inv_coreD(1) [OF inv] fresh(1) by simp
    show "node_ok (tbl(entry_name (op x) \<mapsto> na)) na' (rs @ [r]) p"
      if "p \<in> set (ns @ [(na, x)])" for p
    proof -
      from that have "p \<in> set ns \<or> p = (na, x)" by auto
      then show ?thesis using old new by blast
    qed
    show "\<exists>y. (i, y) \<in> set (ns @ [(na, x)]) \<and> entry_name (op y) = n"
      if "(tbl(entry_name (op x) \<mapsto> na)) n = Some i" for n i
      using that by (rule tbl)
    show "handle_ok (ns @ [(na, x)]) r'" if "r' \<in> set (rs @ [r])" for r'
      using that by (rule hs)
  qed
qed

lemma inv_modify_add:
  assumes inv: "inv_core ns tbl na rs"
    and node: "(h, x) \<in> set ns"
    and r: "handle_node r = Some h" "handle_name r = Some (entry_name (op x))"
    and f: "entry_name (op (f x)) = entry_name (op x)"
      "refcount (f x) = refcount x + (if is_def h r then 1 else 0)"
      "weak_refcount (f x) = weak_refcount x + 1"
      "kernel_refs (f x) = impl_kernel h r @ kernel_refs x"
      "\<forall>s. entry_schema (op (f x)) = Some s \<longrightarrow> operator_name s = entry_name (op x)"
      "0 < refcount (f x) \<longrightarrow> entry_schema (op (f x)) \<noteq> None"
    and na: "na \<le> na'"
  shows "inv_core (modify_nodes h f ns) tbl na' (rs @ [r])"
proof (rule inv_coreI)
  note d = inv_coreD(1) [OF inv]
  show "distinct (map fst (modify_nodes h f ns))" using d by simp
  show "node_ok tbl na' (rs @ [r]) p" if "p \<in> set (modify_nodes h f ns)" for p
  proof -
    from that obtain i y where q: "(i, y) \<in> set ns" and p: "p = (if i = h then (i, f y) else (i, y))"
      by (auto simp add: set_modify_nodes)
    have ok: "node_ok tbl na rs (i, y)" using inv_coreD(2) [OF inv q] .
    show ?thesis
    proof (cases "i = h")
      case True
      then have "y = x" using q node d by (auto dest: eq_key_imp_eq_value)
      then show ?thesis
        using ok True p f na this_node [OF r(1)]
        by (auto simp add: node_ok_def live_defs_append impl_kernels_append live_impls_def)
    next
      case False
      then show ?thesis
        using ok p na other_node [OF r(1) False]
        by (auto simp add: node_ok_def live_defs_append impl_kernels_append live_impls_def)
    qed
  qed
  show "\<exists>y. (i, y) \<in> set (modify_nodes h f ns) \<and> entry_name (op y) = n" if "tbl n = Some i" for n i
  proof -
    from inv_coreD(3) [OF inv that] obtain y where y: "(i, y) \<in> set ns" "entry_name (op y) = n"
      by blast
    show ?thesis
    proof (cases "i = h")
      case True
      then have "y = x" using y node d by (auto dest: eq_key_imp_eq_value)
      then have "(i, f x) \<in> set (modify_nodes h f ns)"
        using True node by (force simp add: set_modify_nodes)
      then show ?thesis using f(1) y \<open>y = x\<close> by auto
    next
      case False
      then have "(i, y) \<in> set (modify_nodes h f ns)"
        using y by (force simp add: set_modify_nodes)
      then show ?thesis using y by auto
    qed
  qed
  show "handle_ok (modify_nodes h f ns) r'" if "r' \<in> set (rs @ [r])" for r'
  proof -
    have keep: "\<exists>y'. (i, y') \<in> set (modify_nodes h f ns) \<and> entry_name (op y') = entry_name (op y)"
      if "(i, y) \<in> set ns" for i y
    proof (cases "i = h")
      case True
      then have "y = x" using that node d by (auto dest: eq_key_imp_eq_value)
      then have "(i, f x) \<in> set (modify_nodes h f ns)"
        using True node by (force simp add: set_modify_nodes)
      then show ?thesis using f(1) \<open>y = x\<close> by auto
    next
      case False
      then have "(i, y) \<in> set (modify_nodes h f ns)"
        using that by (force simp add: set_modify_nodes)
      then show ?thesis by auto
    qed
    have "handle_ok ns r'"
    proof (cases "r' = r")
      case True
      then show ?thesis using r node by (auto simp add: handle_ok_def)
    next
      case False
      then show ?thesis using that inv_coreD(4) [OF inv] by simp
    qed
    then show ?thesis
      using keep by (fastforce simp add: handle_ok_def split: option.splits)
  qed
qed

lemma handle_counted:
  assumes "r \<in> set rs"
  shows "(if is_def i r then 1 else 0) \<le> live_defs i rs"
    and "length (impl_kernel i r) \<le> live_impls i rs"
proof -
  from assms obtain ys zs where s: "rs = ys @ r # zs" "remove1 r rs = ys @ zs"
    by (rule remove1_split)
  show "(if is_def i r then 1 else 0) \<le> live_defs i rs"
    using s by (simp add: live_defs_def)
  show "length (impl_kernel i r) \<le> live_impls i rs"
    using s by (simp add: live_impls_def impl_kernels_def)
qed

lemma same_node:
  assumes "distinct (map fst ns)" "(h, x) \<in> set ns" "(h, y) \<in> set ns"
  shows "y = x"
  using assms by (auto dest: eq_key_imp_eq_value)

lemma inv_modify_remove:
  assumes inv: "inv_core ns tbl na rs"
    and node: "(h, x) \<in> set ns"
    and r: "r \<in> set rs" "handle_node r = Some h"
    and f: "entry_name (op (f x)) = entry_name (op x)"
      "refcount (f x) = refcount x - (if is_def h r then 1 else 0)"
      "weak_refcount (f x) = weak_refcount x - 1"
      "mset (kernel_refs (f x)) = mset (kernel_refs x) - mset (impl_kernel h r)"
      "entry_schema (op (f x)) = entry_schema (op x)"
    and w: "1 < weak_refcount x"
  shows "inv_core (modify_nodes h f ns) tbl na (remove1 r rs)"
proof (rule inv_coreI)
  note d = inv_coreD(1) [OF inv]
  show "distinct (map fst (modify_nodes h f ns))" using d by simp
  have keep: "\<exists>y'. (i, y') \<in> set (modify_nodes h f ns) \<and> entry_name (op y') = entry_name (op y)"
    if "(i, y) \<in> set ns" for i y
  proof (cases "i = h")
    case True
    then have "y = x" using that node d by (auto dest: same_node)
    then have "(i, f x) \<in> set (modify_nodes h f ns)"
      using True node by (force simp add: set_modify_nodes)
    then show ?thesis using f(1) \<open>y = x\<close> by auto
  next
    case False
    then have "(i, y) \<in> set (modify_nodes h f ns)"
      using that by (force simp add: set_modify_nodes)
    then show ?thesis by auto
  qed
  show "node_ok tbl na (remove1 r rs) p" if "p \<in> set (modify_nodes h f ns)" for p
  proof -
    from that obtain i y where q: "(i, y) \<in> set ns" and p: "p = (if i = h then (i, f y) else (i, y))"
      by (auto simp add: set_modify_nodes)
    have ok: "node_ok tbl na rs (i, y)" using inv_coreD(2) [OF inv q] .
    show ?thesis
    proof (cases "i = h")
      case True
      then have "y = x" using q node d by (auto dest: same_node)
      then show ?thesis
        using ok True p f w this_node [OF r(2)] handle_counted [OF r(1), of h]
        by (auto simp add: node_ok_def live_defs_remove1 [OF r(1)] live_impls_remove1 [OF r(1)]
            mset_impl_kernels_remove1 [OF r(1)])
    next
      case False
      then show ?thesis
        using ok p other_node [OF r(2) False]
        by (auto simp add: node_ok_def live_defs_remove1 [OF r(1)] live_impls_remove1 [OF r(1)]
            mset_impl_kernels_remove1 [OF r(1)])
    qed
  qed
  show "\<exists>y. (i, y) \<in> set (modify_nodes h f ns) \<and> entry_name (op y) = n" if "tbl n = Some i" for n i
  proof -
    from inv_coreD(3) [OF inv that] obtain y where y: "(i, y) \<in> set ns" "entry_name (op y) = n"
      by blast
    from keep [OF y(1)] y(2) show ?thesis by auto
  qed
  show "handle_ok (modify_nodes h f ns) r'" if "r' \<in> set (remove1 r rs)" for r'
  proof -
    have "r' \<in> set rs" using that set_remove1_subset by fastforce
    then have "handle_ok ns r'" by (rule inv_coreD(4) [OF inv])
    then show ?thesis
      using keep by (fastforce simp add: handle_ok_def split: option.splits)
  qed
qed

lemma inv_erase_remove:
  assumes inv: "inv_core ns tbl na rs"
    and node: "(h, x) \<in> set ns"
    and r: "r \<in> set rs" "handle_node r = Some h"
    and w: "weak_refcount x = 1"
  shows "inv_core (erase_nodes h ns) (tbl(entry_name (op x) := None)) na (remove1 r rs)"
proof (rule inv_coreI)
  note d = inv_coreD(1) [OF inv]
  have okx: "node_ok tbl na rs (h, x)" using inv_coreD(2) [OF inv node] .
  have sub: "r' \<in> set rs" if "r' \<in> set (remove1 r rs)" for r'
    using that set_remove1_subset by fastforce
  have gone: "live_defs h (remove1 r rs) = 0 \<and> live_impls h (remove1 r rs) = 0"
    using okx w this_node [OF r(2)] handle_counted [OF r(1), of h]
    by (auto simp add: node_ok_def live_defs_remove1 [OF r(1)] live_impls_remove1 [OF r(1)])
  show "distinct (map fst (erase_nodes h ns))" using d by (rule distinct_erase_nodes)
  show "node_ok (tbl(entry_name (op x) := None)) na (remove1 r rs) p"
    if "p \<in> set (erase_nodes h ns)" for p
  proof -
    obtain i y where p: "p = (i, y)" by (cases p)
    have q: "(i, y) \<in> set ns" "i \<noteq> h" using that p by (auto simp add: set_erase_nodes)
    have ok: "node_ok tbl na rs (i, y)" using inv_coreD(2) [OF inv q(1)] .
    have "entry_name (op y) \<noteq> entry_name (op x)"
      using ok okx q(2) by (auto simp add: node_ok_def)
    then show ?thesis
      using ok p other_node [OF r(2) q(2)]
      by (auto simp add: node_ok_def live_defs_remove1 [OF r(1)] live_impls_remove1 [OF r(1)]
          mset_impl_kernels_remove1 [OF r(1)])
  qed
  show "\<exists>y. (i, y) \<in> set (erase_nodes h ns) \<and> entry_name (op y) = n"
    if "(tbl(entry_name (op x) := None)) n = Some i" for n i
  proof -
    have n: "n \<noteq> entry_name (op x)" "tbl n = Some i" using that by (auto split: if_splits)
    from inv_coreD(3) [OF inv n(2)] obtain y where y: "(i, y) \<in> set ns" "entry_name (op y) = n"
      by blast
    have "i \<noteq> h" using same_node [OF d node] y n(1) by auto
    then show ?thesis using y by (auto simp add: set_erase_nodes)
  qed
  show "handle_ok (erase_nodes h ns) r'" if "r' \<in> set (remove1 r rs)" for r'
  proof -
    have ok: "handle_ok ns r'" using sub [OF that] by (rule inv_coreD(4) [OF inv])
    have "handle_node r' \<noteq> Some h"
    proof
      assume a: "handle_node r' = Some h"
      from handle_counted [OF that, of h] this_node [OF a] gone show False
        by (auto split: if_splits)
    qed
    then show ?thesis
      using ok by (fastforce simp add: handle_ok_def set_erase_nodes split: option.splits)
  qed
qed

lemma inv_no_node:
  assumes inv: "inv_core ns tbl na rs" and r: "handle_node r = None" and na: "na \<le> na'"
  shows "inv_core ns tbl na' (rs @ [r])" and "inv_core ns tbl na' (remove1 r rs)"
    and "inv_core ns tbl na' rs"
proof -
  have c: "live_defs i (rs @ [r]) = live_defs i rs" "impl_kernels i (rs @ [r]) = impl_kernels i rs"
      "live_impls i (rs @ [r]) = live_impls i rs" for i
    using no_node [OF r, of i]
    by (simp_all add: live_defs_append impl_kernels_append live_impls_append)
  have e: "live_defs i (remove1 r rs) = live_defs i rs"
      "mset (impl_kernels i (remove1 r rs)) = mset (impl_kernels i rs)"
      "live_impls i (remove1 r rs) = live_impls i rs" for i
  proof -
    show "live_defs i (remove1 r rs) = live_defs i rs"
      using no_node [OF r, of i]
      by (cases "r \<in> set rs") (simp_all add: live_defs_remove1 remove1_idem)
    show "mset (impl_kernels i (remove1 r rs)) = mset (impl_kernels i rs)"
      using no_node [OF r, of i]
      by (cases "r \<in> set rs") (simp_all add: mset_impl_kernels_remove1 remove1_idem)
    show "live_impls i (remove1 r rs) = live_impls i rs"
      using no_node [OF r, of i]
      by (cases "r \<in> set rs") (simp_all add: live_impls_remove1 remove1_idem)
  qed
  have sub: "r' \<in> set rs" if "r' \<in> set (remove1 r rs)" for r'
    using that set_remove1_subset by fastforce
  show "inv_core ns tbl na' rs"
    using inv na unfolding inv_core_def node_ok_def by fastforce
  then show "inv_core ns tbl na' (rs @ [r])"
    using r c unfolding inv_core_def node_ok_def handle_ok_def by fastforce
  from \<open>inv_core ns tbl na' rs\<close> show "inv_core ns tbl na' (remove1 r rs)"
    using e sub unfolding inv_core_def node_ok_def by fastforce
qed

subsection \<open>What each operation does to the nodes and the lookup table\<close>

lemma modify_nodes_append:
  "modify_nodes h f (xs @ ys) = modify_nodes h f xs @ modify_nodes h f ys"
  by (simp add: modify_nodes_def)

lemma modify_nodes_fresh: "h \<notin> fst ` set ns \<Longrightarrow> modify_nodes h f ns = ns"
  by (induction ns) (auto simp add: modify_nodes_def)

lemma modify_nodes_single [simp]: "modify_nodes h f [(h, x)] = [(h, f x)]"
  by (simp add: modify_nodes_def)

lemma erase_modify_nodes [simp]: "erase_nodes h (modify_nodes h f ns) = erase_nodes h ns"
  by (induction ns) (auto simp add: modify_nodes_def erase_nodes_def)

lemma deref_fresh: "h \<notin> fst ` set (operators d) \<Longrightarrow> deref d h = None"
  by (simp add: deref_def map_of_eq_None_iff)

lemma operators_increment_refcounts:
  "operators (increment_refcounts h d) =
     modify_nodes h (\<lambda>x. x\<lparr>refcount := refcount x + 1, weak_refcount := weak_refcount x + 1\<rparr>)
       (operators d)"
  by (simp add: increment_refcounts_def modify_nodes_comp comp_def)

lemma operators_decrement_refcounts:
  "operators (decrement_refcounts h d) =
     modify_nodes h (\<lambda>x. x\<lparr>refcount := refcount x - 1, weak_refcount := weak_refcount x - 1\<rparr>)
       (operators d)"
  by (simp add: decrement_refcounts_def modify_nodes_comp comp_def)

lemma decrement_refcounts_fields [simp]:
  "operatorLookupTable (decrement_refcounts h d) = operatorLookupTable d"
  "backendFallbackKernels (decrement_refcounts h d) = backendFallbackKernels d"
  "backendsWithoutFallthrough (decrement_refcounts h d) = backendsWithoutFallthrough d"
  "listeners (decrement_refcounts h d) = listeners d"
  "next_addr (decrement_refcounts h d) = next_addr d"
  "calls (decrement_refcounts h d) = calls d"
  by (simp_all add: decrement_refcounts_def)

lemma deref_decrement_refcounts:
  "deref (decrement_refcounts h d) h' =
     (if h' = h
      then map_option
             (\<lambda>x. x\<lparr>refcount := refcount x - 1, weak_refcount := weak_refcount x - 1\<rparr>)
             (deref d h)
      else deref d h')"
  by (cases "deref d h") (simp_all add: decrement_refcounts_def deref_modify_node)

lemma registerDef_new:
  assumes "findSchema d (operator_name s) = None" "next_addr d \<notin> fst ` set (operators d)"
  shows "fst (registerDef s d) = Inr (DefRegistration (next_addr d) (operator_name s))"
    and "operators (snd (registerDef s d)) =
           operators d @ [(next_addr d,
             \<lparr>op = OperatorEntry_of_schema s, refcount = 1, weak_refcount = 1\<rparr>)]"
    and "operatorLookupTable (snd (registerDef s d)) =
           (operatorLookupTable d)(operator_name s \<mapsto> next_addr d)"
    and "next_addr (snd (registerDef s d)) = Suc (next_addr d)"
    and "listeners (snd (registerDef s d)) = callOnOperatorRegistered (next_addr d) (listeners d)"
proof -
  let ?h = "next_addr d"
  let ?d1 = "d\<lparr>operators := operators d @ [(?h, OperatorDef (OperatorEntry_of_schema s))],
               next_addr := Suc ?h\<rparr>"
  let ?d2 = "?d1\<lparr>operatorLookupTable := (operatorLookupTable d)(operator_name s \<mapsto> ?h)\<rparr>"
  have f: "findOrRegisterWithSchema s d = (Inr ?h, ?d2)"
    using assms(1)
    by (simp add: findOrRegisterWithSchema_def emplace_back_def emplace_def findSchema_def)
  have m: "map_of (operators d) ?h = None"
    using assms(2) by (simp add: map_of_eq_None_iff)
  have g: "deref (increment_refcounts ?h ?d2) ?h =
             Some \<lparr>op = OperatorEntry_of_schema s, refcount = 1, weak_refcount = 1\<rparr>"
  proof -
    have "deref ?d2 ?h = Some (OperatorDef (OperatorEntry_of_schema s))"
      using m by (simp add: deref_def map_add_def)
    then show ?thesis
      by (simp add: deref_increment_refcounts OperatorDef_def)
  qed
  have o: "operators (increment_refcounts ?h ?d2) =
             operators d @ [(?h, \<lparr>op = OperatorEntry_of_schema s, refcount = 1, weak_refcount = 1\<rparr>)]"
    using assms(2)
    by (simp add: operators_increment_refcounts modify_nodes_append modify_nodes_fresh
        OperatorDef_def)
  have r: "registerDef s d =
     (Inr (DefRegistration ?h (operator_name s)),
      notify_registered ?h (increment_refcounts ?h ?d2))"
    by (simp add: registerDef_def f g Let_def)
  show "fst (registerDef s d) = Inr (DefRegistration ?h (operator_name s))"
    by (simp add: r)
  show "operators (snd (registerDef s d)) =
          operators d @ [(?h, \<lparr>op = OperatorEntry_of_schema s, refcount = 1, weak_refcount = 1\<rparr>)]"
    by (simp add: r o)
  show "operatorLookupTable (snd (registerDef s d)) = (operatorLookupTable d)(operator_name s \<mapsto> ?h)"
    by (simp add: r)
  show "next_addr (snd (registerDef s d)) = Suc ?h"
    by (simp add: r)
  show "listeners (snd (registerDef s d)) = callOnOperatorRegistered ?h (listeners d)"
    by (simp add: r)
qed

lemma registerDef_no_schema:
  assumes "findSchema d (operator_name s) = Some h" "deref d h = Some x"
    "entry_schema (op x) = None"
  shows "registerDef s d = (Inl (InternalAssert ''schema_.has_value()''), d)"
  using assms
  by (simp add: registerDef_def findOrRegisterWithSchema_def handle_schema_def schema_of_def)

lemma registered_again_fields:
  "operators (registered_again s h x fs d) =
     modify_nodes h
       (\<lambda>y. y\<lparr>op := (if aliasAnalysis s \<noteq> DEFAULT_KIND \<and> aliasAnalysis fs = DEFAULT_KIND
                      then updateSchemaAliasAnalysis (aliasAnalysis s) (op y) else op y),
               refcount := refcount y + 1, weak_refcount := weak_refcount y + 1\<rparr>)
       (operators d)"
  "next_addr (registered_again s h x fs d) = next_addr d"
  "listeners (registered_again s h x fs d) =
     (if refcount x = 0 then callOnOperatorRegistered h (listeners d) else listeners d)"
  by (simp_all add: registered_again_def Let_def operators_increment_refcounts
      modify_nodes_comp comp_def)

lemma registerImpl_new:
  assumes "findSchema d n = None" "next_addr d \<notin> fst ` set (operators d)"
  shows "fst (registerImpl n k f d) = Inr (ImplRegistration (next_addr d) n k (Suc (next_addr d)))"
    and "operators (snd (registerImpl n k f d)) =
           operators d @ [(next_addr d,
             \<lparr>op = \<lparr>entry_name = n, entry_schema = None,
                     kernels = [(k, Suc (next_addr d), f)]\<rparr>,
              refcount = 0, weak_refcount = 1\<rparr>)]"
    and "operatorLookupTable (snd (registerImpl n k f d)) = (operatorLookupTable d)(n \<mapsto> next_addr d)"
    and "next_addr (snd (registerImpl n k f d)) = Suc (Suc (next_addr d))"
    and "listeners (snd (registerImpl n k f d)) = listeners d"
proof -
  let ?h = "next_addr d"
  let ?d1 = "d\<lparr>operators := operators d @ [(?h, OperatorDef (OperatorEntry_of_name n))],
               next_addr := Suc ?h,
               operatorLookupTable := (operatorLookupTable d)(n \<mapsto> ?h)\<rparr>"
  have f: "findOrRegisterWithName n d = (?h, ?d1)"
    using assms(1)
    by (simp add: findOrRegisterWithName_def emplace_back_def emplace_def findSchema_def)
  have m: "map_of (operators d) ?h = None"
    using assms(2) by (simp add: map_of_eq_None_iff)
  have g: "deref ?d1 ?h = Some (OperatorDef (OperatorEntry_of_name n))"
    using m by (simp add: deref_def map_add_def)
  let ?d3 = "modify_node ?h (\<lambda>x. x\<lparr>weak_refcount := weak_refcount x + 1\<rparr>)
              (modify_node ?h (\<lambda>x. x\<lparr>op := registerKernel k (Suc ?h) f (op x)\<rparr>)
                 (?d1\<lparr>next_addr := Suc (Suc ?h)\<rparr>))"
  have r: "registerImpl n k f d = (Inr (ImplRegistration ?h n k (Suc ?h)), ?d3)"
    unfolding registerImpl_def f using g by (simp add: Let_def)
  show "fst (registerImpl n k f d) = Inr (ImplRegistration ?h n k (Suc ?h))"
    by (simp add: r)
  show "operators (snd (registerImpl n k f d)) =
          operators d @ [(?h, \<lparr>op = \<lparr>entry_name = n, entry_schema = None,
                                   kernels = [(k, Suc ?h, f)]\<rparr>,
                            refcount = 0, weak_refcount = 1\<rparr>)]"
    using assms(2)
    by (simp add: r modify_nodes_append modify_nodes_fresh OperatorDef_def
        OperatorEntry_of_name_def registerKernel_def)
  show "operatorLookupTable (snd (registerImpl n k f d)) = (operatorLookupTable d)(n \<mapsto> ?h)"
    by (simp add: r)
  show "next_addr (snd (registerImpl n k f d)) = Suc (Suc ?h)"
    by (simp add: r)
  show "listeners (snd (registerImpl n k f d)) = listeners d"
    by (simp add: r)
qed

lemma registerImpl_found:
  assumes "findSchema d n = Some h" "deref d h = Some x"
  shows "fst (registerImpl n k f d) = Inr (ImplRegistration h n k (next_addr d))"
    and "operators (snd (registerImpl n k f d)) =
           modify_nodes h
             (\<lambda>y. y\<lparr>op := registerKernel k (next_addr d) f (op y),
                     weak_refcount := weak_refcount y + 1\<rparr>)
             (operators d)"
    and "operatorLookupTable (snd (registerImpl n k f d)) = operatorLookupTable d"
    and "next_addr (snd (registerImpl n k f d)) = Suc (next_addr d)"
    and "listeners (snd (registerImpl n k f d)) = listeners d"
proof -
  let ?d3 = "modify_node h (\<lambda>x. x\<lparr>weak_refcount := weak_refcount x + 1\<rparr>)
              (modify_node h (\<lambda>x. x\<lparr>op := registerKernel k (next_addr d) f (op x)\<rparr>)
                 (d\<lparr>next_addr := Suc (next_addr d)\<rparr>))"
  have r: "registerImpl n k f d = (Inr (ImplRegistration h n k (next_addr d)), ?d3)"
    using assms by (simp add: registerImpl_def findOrRegisterWithName_def Let_def)
  show "fst (registerImpl n k f d) = Inr (ImplRegistration h n k (next_addr d))"
    by (simp add: r)
  show "operators (snd (registerImpl n k f d)) =
          modify_nodes h
            (\<lambda>y. y\<lparr>op := registerKernel k (next_addr d) f (op y),
                    weak_refcount := weak_refcount y + 1\<rparr>)
            (operators d)"
    by (simp add: r modify_nodes_comp comp_def)
  show "operatorLookupTable (snd (registerImpl n k f d)) = operatorLookupTable d"
    by (simp add: r)
  show "next_addr (snd (registerImpl n k f d)) = Suc (next_addr d)"
    by (simp add: r)
  show "listeners (snd (registerImpl n k f d)) = listeners d"
    by (simp add: r)
qed

lemma erase_if_unreferenced_effect:
  assumes "deref d h = Some x" "weak_refcount x = 0 \<longrightarrow> kernels (op x) = []"
  shows "fst (erase_if_unreferenced h n d) = Inr ()"
    and "operators (snd (erase_if_unreferenced h n d)) =
           (if weak_refcount x = 0 then erase_nodes h (operators d) else operators d)"
    and "operatorLookupTable (snd (erase_if_unreferenced h n d)) =
           (if weak_refcount x = 0 then (operatorLookupTable d)(n := None)
            else operatorLookupTable d)"
    and "next_addr (snd (erase_if_unreferenced h n d)) = next_addr d"
    and "listeners (snd (erase_if_unreferenced h n d)) = listeners d"
  using assms
  by (simp_all add: erase_if_unreferenced_def prepareForDeregistration_def Let_def)

lemma deregisterDef_effect:
  assumes "deref d h = Some x" "entry_schema (op x) = Some fs" "operator_name fs = n"
    "0 < refcount x" "0 < weak_refcount x" "weak_refcount x = 1 \<longrightarrow> kernels (op x) = []"
  shows "fst (deregisterDef h n d) = Inr ()"
    and "operators (snd (deregisterDef h n d)) =
           (if weak_refcount x = 1 then erase_nodes h (operators d)
            else modify_nodes h
                   (\<lambda>y. y\<lparr>refcount := refcount y - 1, weak_refcount := weak_refcount y - 1\<rparr>)
                   (operators d))"
    and "operatorLookupTable (snd (deregisterDef h n d)) =
           (if weak_refcount x = 1 then (operatorLookupTable d)(n := None)
            else operatorLookupTable d)"
    and "next_addr (snd (deregisterDef h n d)) = next_addr d"
    and "listeners (snd (deregisterDef h n d)) =
           (if refcount x = 1 then callOnOperatorDeregistered h (listeners d) else listeners d)"
proof -
  define d2 where "d2 =
     (if 0 = refcount x - 1
      then notify_deregistered h (decrement_refcounts h d)
      else decrement_refcounts h d)"
  let ?x' = "x\<lparr>refcount := refcount x - 1, weak_refcount := weak_refcount x - 1\<rparr>"
  have r: "deregisterDef h n d = erase_if_unreferenced h n d2"
    using assms by (simp add: deregisterDef_def handle_schema_def schema_of_def Let_def d2_def)
  have g: "deref d2 h = Some ?x'"
    using assms(1) by (simp add: deref_decrement_refcounts d2_def)
  have k: "weak_refcount ?x' = 0 \<longrightarrow> kernels (op ?x') = []"
    using assms(5,6) by auto
  have w: "(weak_refcount ?x' = 0) = (weak_refcount x = 1)"
    using assms(5) by auto
  have c: "(0 = refcount x - 1) = (refcount x = 1)"
    using assms(4) by auto
  note e = erase_if_unreferenced_effect [OF g k, of n]
  have o2: "operators d2 = modify_nodes h
                   (\<lambda>y. y\<lparr>refcount := refcount y - 1, weak_refcount := weak_refcount y - 1\<rparr>)
                   (operators d)"
    by (simp add: d2_def operators_decrement_refcounts)
  have t2: "operatorLookupTable d2 = operatorLookupTable d" by (simp add: d2_def)
  have n2: "next_addr d2 = next_addr d" by (simp add: d2_def)
  have l2: "listeners d2 =
      (if refcount x = 1 then callOnOperatorDeregistered h (listeners d) else listeners d)"
    using c by (simp add: d2_def)
  show "fst (deregisterDef h n d) = Inr ()"
    using e(1) by (simp add: r)
  show "operators (snd (deregisterDef h n d)) =
           (if weak_refcount x = 1 then erase_nodes h (operators d)
            else modify_nodes h
                   (\<lambda>y. y\<lparr>refcount := refcount y - 1, weak_refcount := weak_refcount y - 1\<rparr>)
                   (operators d))"
    unfolding r e(2) w o2 by simp
  show "operatorLookupTable (snd (deregisterDef h n d)) =
           (if weak_refcount x = 1 then (operatorLookupTable d)(n := None)
            else operatorLookupTable d)"
    unfolding r e(3) w t2 by simp
  show "next_addr (snd (deregisterDef h n d)) = next_addr d"
    unfolding r e(4) n2 by simp
  show "listeners (snd (deregisterDef h n d)) =
           (if refcount x = 1 then callOnOperatorDeregistered h (listeners d) else listeners d)"
    unfolding r e(5) l2 by simp
qed

lemma release_impl_effect:
  assumes "deref d h = Some x" "entry_name (op x) = n" "has_kernel k t (op x)"
    "0 < weak_refcount x" "weak_refcount x = 1 \<longrightarrow> erase_kernel k t (kernels (op x)) = []"
  shows "fst (release_impl h n k t d) = Inr ()"
    and "operators (snd (release_impl h n k t d)) =
           (if weak_refcount x = 1 then erase_nodes h (operators d)
            else modify_nodes h
                   (\<lambda>y. y\<lparr>op := (op x)\<lparr>kernels := erase_kernel k t (kernels (op x))\<rparr>,
                           weak_refcount := weak_refcount y - 1\<rparr>)
                   (operators d))"
    and "operatorLookupTable (snd (release_impl h n k t d)) =
           (if weak_refcount x = 1 then (operatorLookupTable d)(n := None)
            else operatorLookupTable d)"
    and "next_addr (snd (release_impl h n k t d)) = next_addr d"
    and "listeners (snd (release_impl h n k t d)) = listeners d"
proof -
  let ?e = "(op x)\<lparr>kernels := erase_kernel k t (kernels (op x))\<rparr>"
  let ?d1 = "modify_node h (\<lambda>x. x\<lparr>op := ?e\<rparr>) d"
  let ?d2 = "modify_node h (\<lambda>x. x\<lparr>weak_refcount := weak_refcount x - 1\<rparr>) ?d1"
  let ?x' = "x\<lparr>op := ?e, weak_refcount := weak_refcount x - 1\<rparr>"
  have g1: "deref ?d1 h = Some (x\<lparr>op := ?e\<rparr>)"
    using assms(1) by (simp add: deref_modify_node)
  have r: "release_impl h n k t d = erase_if_unreferenced h n ?d2"
    using assms g1
    by (simp add: release_impl_def deregisterKernel_def deregisterImpl_def
        handle_operator_name_def)
  have g: "deref ?d2 h = Some ?x'"
    by (simp add: deref_modify_node assms(1))
  have kk: "weak_refcount ?x' = 0 \<longrightarrow> kernels (op ?x') = []"
    using assms(4,5) by auto
  have w: "(weak_refcount ?x' = 0) = (weak_refcount x = 1)"
    using assms(4) by auto
  note e = erase_if_unreferenced_effect [OF g kk, of n]
  show "fst (release_impl h n k t d) = Inr ()"
    using e(1) by (simp add: r)
  show "operators (snd (release_impl h n k t d)) =
           (if weak_refcount x = 1 then erase_nodes h (operators d)
            else modify_nodes h
                   (\<lambda>y. y\<lparr>op := ?e, weak_refcount := weak_refcount y - 1\<rparr>)
                   (operators d))"
    unfolding r e(2) w by (simp add: modify_nodes_comp comp_def)
  show "operatorLookupTable (snd (release_impl h n k t d)) =
           (if weak_refcount x = 1 then (operatorLookupTable d)(n := None)
            else operatorLookupTable d)"
    unfolding r e(3) w by simp
  show "next_addr (snd (release_impl h n k t d)) = next_addr d"
    unfolding r e(4) by simp
  show "listeners (snd (release_impl h n k t d)) = listeners d"
    unfolding r e(5) by simp
qed

lemma registerFallback_fields [simp]:
  "operators (snd (registerFallback k f d)) = operators d"
  "operatorLookupTable (snd (registerFallback k f d)) = operatorLookupTable d"
  "next_addr (snd (registerFallback k f d)) = next_addr d"
  "listeners (snd (registerFallback k f d)) = listeners d"
  by (simp_all add: registerFallback_def setKernel_def Let_def split: option.splits)

lemma registerFallback_result:
  "(\<exists>e. fst (registerFallback k f d) = Inl e)
   \<or> fst (registerFallback k f d) = Inr (FallbackRegistration k)"
  by (simp add: registerFallback_def setKernel_def Let_def split: option.splits)

lemma deregisterFallback_fields [simp]:
  "operators (snd (deregisterFallback k d)) = operators d"
  "operatorLookupTable (snd (deregisterFallback k d)) = operatorLookupTable d"
  "next_addr (snd (deregisterFallback k d)) = next_addr d"
  "listeners (snd (deregisterFallback k d)) = listeners d"
  by (simp_all add: deregisterFallback_def removeKernelIfExists_def Let_def split: option.splits)

lemma addRegistrationListener_fields [simp]:
  "operators (addRegistrationListener l d) = operators d"
  "operatorLookupTable (addRegistrationListener l d) = operatorLookupTable d"
  "next_addr (addRegistrationListener l d) = next_addr d"
  by (simp_all add: addRegistrationListener_def)

lemma acquire_Inr: "fst r = Inr h \<Longrightarrow> acquire r s = \<lparr>disp = snd r, live = live s @ [h]\<rparr>"
  by (cases r) (simp add: acquire_def)

lemma acquire_Inl: "fst r = Inl e \<Longrightarrow> acquire r s = s\<lparr>disp := snd r\<rparr>"
  by (cases r) (simp add: acquire_def)

lemma mset_erase_kernel:
  "(k, t) \<in> set (map (\<lambda>(k, t, f). (k, t)) ks) \<Longrightarrow>
   mset (map (\<lambda>(k, t, f). (k, t)) (erase_kernel k t ks)) =
     mset (map (\<lambda>(k, t, f). (k, t)) ks) - {#(k, t)#}"
proof (induction ks)
  case Nil
  then show ?case by simp
next
  case (Cons a ks)
  obtain k' t' f' where a: "a = (k', t', f')" by (cases a)
  show ?case
  proof (cases "k' = k \<and> t' = t")
    case True
    then show ?thesis by (simp add: a)
  next
    case False
    then have m: "(k, t) \<in> set (map (\<lambda>(k, t, f). (k, t)) ks)"
      using Cons.prems by (auto simp add: a)
    then have "(k, t) \<in># mset (map (\<lambda>(k, t, f). (k, t)) ks)" by simp
    then show ?thesis
      using False Cons.IH [OF m] by (auto simp add: a)
  qed
qed

lemma erase_last_kernel:
  "length ks = 1 \<Longrightarrow> (k, t) \<in> set (map (\<lambda>(k, t, f). (k, t)) ks) \<Longrightarrow> erase_kernel k t ks = []"
  by (cases ks) auto

lemma invariantD:
  assumes "invariant s"
  shows "inv_core (operators (disp s)) (operatorLookupTable (disp s)) (next_addr (disp s)) (live s)"
  using assms by (simp add: invariant_def)

lemma invariant_deref:
  assumes "invariant s"
  shows "(deref (disp s) h = Some x) = ((h, x) \<in> set (operators (disp s)))"
  using inv_coreD(1) [OF invariantD [OF assms]] by (simp add: deref_def)

lemma invariant_initial: "invariant initial"
  by (simp add: invariant_def initial_def Dispatcher_def inv_core_def)

lemma invariant_RegisterDef:
  assumes inv: "invariant s"
  shows "invariant (step s (RegisterDef sch))"
proof -
  let ?d = "disp s" and ?n = "operator_name sch"
  note core = invariantD [OF inv]
  show ?thesis
  proof (cases "findSchema ?d ?n")
    case None
    note new = registerDef_new [OF None inv_core_fresh(1) [OF core]]
    let ?x = "\<lparr>op = OperatorEntry_of_schema sch, refcount = 1, weak_refcount = 1\<rparr>"
    let ?r = "DefRegistration (next_addr ?d) ?n"
    have en: "entry_name (op ?x) = ?n" by (simp add: OperatorEntry_of_schema_def)
    have "inv_core (operators ?d @ [(next_addr ?d, ?x)])
            ((operatorLookupTable ?d)(entry_name (op ?x) \<mapsto> next_addr ?d))
            (Suc (next_addr ?d)) (live s @ [?r])"
      using None
      by (intro inv_add_node [OF core])
        (simp_all add: OperatorEntry_of_schema_def findSchema_def kernel_refs_def)
    then show ?thesis
      by (simp add: invariant_def acquire_Inr [OF new(1)] new OperatorEntry_of_schema_def)
  next
    case (Some h)
    then have "operatorLookupTable ?d ?n = Some h" by (simp add: findSchema_def)
    from inv_coreD(3) [OF core this] obtain x
      where x: "(h, x) \<in> set (operators ?d)" "entry_name (op x) = ?n" by blast
    have g: "deref ?d h = Some x" using x(1) by (simp add: invariant_deref [OF inv])
    have ok: "node_ok (operatorLookupTable ?d) (next_addr ?d) (live s) (h, x)"
      using inv_coreD(2) [OF core x(1)] .
    show ?thesis
    proof (cases "entry_schema (op x)")
      case None
      have "registerDef sch ?d = (Inl (InternalAssert ''schema_.has_value()''), ?d)"
        using Some g None by (rule registerDef_no_schema)
      then show ?thesis using inv by (simp add: acquire_def)
    next
      case (Some fs)
      note r = registerDef_found [OF \<open>findSchema ?d ?n = Some h\<close> g Some]
      show ?thesis
      proof (cases "fst (registerDef sch ?d)")
        case (Inl e)
        then have "snd (registerDef sch ?d) = ?d" using r by (auto split: if_splits)
        then show ?thesis using inv Inl by (simp add: acquire_Inl [OF Inl])
      next
        case (Inr r')
        then have res: "fst (registerDef sch ?d) = Inr (DefRegistration h ?n)"
            "snd (registerDef sch ?d) = registered_again sch h x fs ?d"
          using r by (auto split: if_splits)
        let ?f = "\<lambda>y. y\<lparr>op := (if aliasAnalysis sch \<noteq> DEFAULT_KIND \<and> aliasAnalysis fs = DEFAULT_KIND
                      then updateSchemaAliasAnalysis (aliasAnalysis sch) (op y) else op y),
               refcount := refcount y + 1, weak_refcount := weak_refcount y + 1\<rparr>"
        have "inv_core (modify_nodes h ?f (operators ?d)) (operatorLookupTable ?d)
                (next_addr ?d) (live s @ [DefRegistration h ?n])"
          using ok Some x(2)
          by (intro inv_modify_add [OF core x(1)])
            (auto simp add: node_ok_def updateSchemaAliasAnalysis_def kernel_refs_def)
        then show ?thesis
          by (simp add: invariant_def acquire_Inr [OF res(1)] res(2) registered_again_fields)
      qed
    qed
  qed
qed

lemma invariant_RegisterImpl:
  assumes inv: "invariant s"
  shows "invariant (step s (RegisterImpl n k f))"
proof -
  let ?d = "disp s"
  note core = invariantD [OF inv]
  show ?thesis
  proof (cases "findSchema ?d n")
    case None
    note new = registerImpl_new [OF None inv_core_fresh(1) [OF core], of k f]
    let ?x = "\<lparr>op = \<lparr>entry_name = n, entry_schema = None,
                      kernels = [(k, Suc (next_addr ?d), f)]\<rparr>,
               refcount = 0, weak_refcount = 1\<rparr>"
    let ?r = "ImplRegistration (next_addr ?d) n k (Suc (next_addr ?d))"
    have "inv_core (operators ?d @ [(next_addr ?d, ?x)])
            ((operatorLookupTable ?d)(entry_name (op ?x) \<mapsto> next_addr ?d))
            (Suc (Suc (next_addr ?d))) (live s @ [?r])"
      using None
      by (intro inv_add_node [OF core]) (simp_all add: findSchema_def kernel_refs_def)
    then show ?thesis
      by (simp add: invariant_def acquire_Inr [OF new(1)] new)
  next
    case (Some h)
    then have "operatorLookupTable ?d n = Some h" by (simp add: findSchema_def)
    from inv_coreD(3) [OF core this] obtain x
      where x: "(h, x) \<in> set (operators ?d)" "entry_name (op x) = n" by blast
    have g: "deref ?d h = Some x" using x(1) by (simp add: invariant_deref [OF inv])
    have ok: "node_ok (operatorLookupTable ?d) (next_addr ?d) (live s) (h, x)"
      using inv_coreD(2) [OF core x(1)] .
    note found = registerImpl_found [OF Some g, of k f]
    let ?f = "\<lambda>y. y\<lparr>op := registerKernel k (next_addr ?d) f (op y),
                     weak_refcount := weak_refcount y + 1\<rparr>"
    have "inv_core (modify_nodes h ?f (operators ?d)) (operatorLookupTable ?d)
            (Suc (next_addr ?d)) (live s @ [ImplRegistration h n k (next_addr ?d)])"
      using ok x(2)
      by (intro inv_modify_add [OF core x(1)])
        (auto simp add: node_ok_def registerKernel_def kernel_refs_def)
    then show ?thesis
      by (simp add: invariant_def acquire_Inr [OF found(1)] found)
  qed
qed

lemma invariant_RegisterFallback:
  assumes inv: "invariant s"
  shows "invariant (step s (RegisterFallback k f))"
proof -
  note core = invariantD [OF inv]
  from registerFallback_result [of k f "disp s"] show ?thesis
  proof
    assume "\<exists>e. fst (registerFallback k f (disp s)) = Inl e"
    then obtain e where "fst (registerFallback k f (disp s)) = Inl e" ..
    then show ?thesis using core by (simp add: invariant_def acquire_Inl)
  next
    assume r: "fst (registerFallback k f (disp s)) = Inr (FallbackRegistration k)"
    have "inv_core (operators (disp s)) (operatorLookupTable (disp s)) (next_addr (disp s))
            (live s @ [FallbackRegistration k])"
      by (rule inv_no_node(1) [OF core]) simp_all
    then show ?thesis by (simp add: invariant_def acquire_Inr [OF r])
  qed
qed

lemma invariant_AddRegistrationListener:
  assumes inv: "invariant s"
  shows "invariant (step s (AddRegistrationListener l))"
  using inv by (simp add: invariant_def)

lemma node_okD:
  assumes "node_ok tbl na rs (i, x)"
  shows "i < na" and "tbl (entry_name (op x)) = Some i"
    and "refcount x = live_defs i rs"
    and "weak_refcount x = refcount x + live_impls i rs"
    and "0 < weak_refcount x"
    and "mset (kernel_refs x) = mset (impl_kernels i rs)"
    and "\<And>s. entry_schema (op x) = Some s \<Longrightarrow> operator_name s = entry_name (op x)"
    and "0 < refcount x \<Longrightarrow> entry_schema (op x) \<noteq> None"
  using assms unfolding node_ok_def prod.case by blast+

lemma live_def_node:
  assumes inv: "invariant s" and r: "DefRegistration h n \<in> set (live s)"
  obtains x fs where "(h, x) \<in> set (operators (disp s))" "deref (disp s) h = Some x"
    "entry_name (op x) = n" "entry_schema (op x) = Some fs" "operator_name fs = n"
    "0 < refcount x" "0 < weak_refcount x" "weak_refcount x = 1 \<longrightarrow> kernels (op x) = []"
proof -
  note core = invariantD [OF inv]
  from inv_coreD(4) [OF core r] obtain x
    where x: "(h, x) \<in> set (operators (disp s))" "entry_name (op x) = n"
    by (auto simp add: handle_ok_def)
  have ok: "node_ok (operatorLookupTable (disp s)) (next_addr (disp s)) (live s) (h, x)"
    using inv_coreD(2) [OF core x(1)] .
  have c: "0 < refcount x"
    using node_okD(3) [OF ok] handle_counted(1) [OF r, of h] by simp
  then obtain fs where fs: "entry_schema (op x) = Some fs" "operator_name fs = n"
    using node_okD(7,8) [OF ok] x(2) by auto
  have k: "weak_refcount x = 1 \<longrightarrow> kernels (op x) = []"
  proof
    assume "weak_refcount x = 1"
    then have "live_impls h (live s) = 0" using node_okD(4) [OF ok] c by simp
    then have "impl_kernels h (live s) = []" by (simp add: live_impls_def)
    then have "mset (kernel_refs x) = {#}" using node_okD(6) [OF ok] by simp
    then show "kernels (op x) = []" by (simp add: kernel_refs_def)
  qed
  have w: "0 < weak_refcount x" using node_okD(5) [OF ok] .
  have g: "deref (disp s) h = Some x" using x(1) by (simp add: invariant_deref [OF inv])
  from x g fs c w k show ?thesis using that by blast
qed

lemma live_impl_node:
  assumes inv: "invariant s" and r: "ImplRegistration h n k t \<in> set (live s)"
  obtains x where "(h, x) \<in> set (operators (disp s))" "deref (disp s) h = Some x"
    "entry_name (op x) = n" "has_kernel k t (op x)" "0 < weak_refcount x"
    "weak_refcount x = 1 \<longrightarrow> erase_kernel k t (kernels (op x)) = []"
proof -
  note core = invariantD [OF inv]
  from inv_coreD(4) [OF core r] obtain x
    where x: "(h, x) \<in> set (operators (disp s))" "entry_name (op x) = n"
    by (auto simp add: handle_ok_def)
  have ok: "node_ok (operatorLookupTable (disp s)) (next_addr (disp s)) (live s) (h, x)"
    using inv_coreD(2) [OF core x(1)] .
  have m: "mset (kernel_refs x) = mset (impl_kernels h (live s))"
    using node_okD(6) [OF ok] .
  have "(k, t) \<in># mset (impl_kernels h (live s))"
    using impl_kernel_in [OF r] by simp
  then have "(k, t) \<in># mset (kernel_refs x)" using m by simp
  then have hk: "(k, t) \<in> set (kernel_refs x)" by simp
  then have has: "has_kernel k t (op x)" by (simp add: has_kernel_def kernel_refs_def)
  have c: "1 \<le> live_impls h (live s)"
    using handle_counted(2) [OF r, of h] by simp
  have e: "weak_refcount x = 1 \<longrightarrow> erase_kernel k t (kernels (op x)) = []"
  proof
    assume "weak_refcount x = 1"
    then have "live_impls h (live s) = 1" using node_okD(4) [OF ok] c by simp
    then have "size (mset (kernel_refs x)) = 1" using m by (simp add: live_impls_def)
    then have "length (kernels (op x)) = 1" by (simp add: kernel_refs_def)
    then show "erase_kernel k t (kernels (op x)) = []"
      using hk by (intro erase_last_kernel) (simp_all add: kernel_refs_def)
  qed
  have w: "0 < weak_refcount x" using node_okD(5) [OF ok] .
  have g: "deref (disp s) h = Some x" using x(1) by (simp add: invariant_deref [OF inv])
  from x g has w e show ?thesis using that by blast
qed

lemma invariant_Dispose:
  assumes inv: "invariant s"
  shows "invariant (step s (Dispose r))"
proof (cases "r \<in> set (live s)")
  case False
  then show ?thesis using inv by simp
next
  case True
  let ?d = "disp s"
  note core = invariantD [OF inv]
  show ?thesis
  proof (cases r)
    case (DefRegistration h n)
    from live_def_node [OF inv True [unfolded DefRegistration]] obtain x fs
      where x: "(h, x) \<in> set (operators ?d)" "deref ?d h = Some x"
        "entry_name (op x) = n" "entry_schema (op x) = Some fs" "operator_name fs = n"
        "0 < refcount x" "0 < weak_refcount x" "weak_refcount x = 1 \<longrightarrow> kernels (op x) = []"
      by blast
    note e = deregisterDef_effect [OF x(2) x(4) x(5) x(6) x(7) x(8)]
    have hn: "handle_node r = Some h" by (simp add: DefRegistration)
    show ?thesis
    proof (cases "weak_refcount x = 1")
      case w: True
      have "inv_core (erase_nodes h (operators ?d))
              ((operatorLookupTable ?d)(entry_name (op x) := None)) (next_addr ?d)
              (remove1 r (live s))"
        by (rule inv_erase_remove [OF core x(1) True hn w])
      then show ?thesis
        using True w by (simp add: invariant_def DefRegistration e x(3))
    next
      case w: False
      let ?f = "\<lambda>y. y\<lparr>refcount := refcount y - 1, weak_refcount := weak_refcount y - 1\<rparr>"
      have "inv_core (modify_nodes h ?f (operators ?d)) (operatorLookupTable ?d) (next_addr ?d)
              (remove1 r (live s))"
        using w x(7)
        by (intro inv_modify_remove [OF core x(1) True hn])
          (auto simp add: DefRegistration kernel_refs_def)
      then show ?thesis
        using True w by (simp add: invariant_def DefRegistration e)
    qed
  next
    case (ImplRegistration h n k t)
    from live_impl_node [OF inv True [unfolded ImplRegistration]] obtain x
      where x: "(h, x) \<in> set (operators ?d)" "deref ?d h = Some x"
        "entry_name (op x) = n" "has_kernel k t (op x)" "0 < weak_refcount x"
        "weak_refcount x = 1 \<longrightarrow> erase_kernel k t (kernels (op x)) = []"
      by blast
    note e = release_impl_effect [OF x(2) x(3) x(4) x(5) x(6)]
    have hn: "handle_node r = Some h" by (simp add: ImplRegistration)
    show ?thesis
    proof (cases "weak_refcount x = 1")
      case w: True
      have "inv_core (erase_nodes h (operators ?d))
              ((operatorLookupTable ?d)(entry_name (op x) := None)) (next_addr ?d)
              (remove1 r (live s))"
        by (rule inv_erase_remove [OF core x(1) True hn w])
      then show ?thesis
        using True w by (simp add: invariant_def ImplRegistration e x(3))
    next
      case w: False
      let ?f = "\<lambda>y. y\<lparr>op := (op x)\<lparr>kernels := erase_kernel k t (kernels (op x))\<rparr>,
                       weak_refcount := weak_refcount y - 1\<rparr>"
      have "inv_core (modify_nodes h ?f (operators ?d)) (operatorLookupTable ?d) (next_addr ?d)
              (remove1 r (live s))"
        using w x(5) x(4) mset_erase_kernel [of k t "kernels (op x)"]
        by (intro inv_modify_remove [OF core x(1) True hn])
          (auto simp add: ImplRegistration kernel_refs_def has_kernel_def)
      then show ?thesis
        using True w by (simp add: invariant_def ImplRegistration e)
    qed
  next
    case (FallbackRegistration k)
    have "inv_core (operators ?d) (operatorLookupTable ?d) (next_addr ?d) (remove1 r (live s))"
      by (rule inv_no_node(2) [OF core]) (simp_all add: FallbackRegistration)
    then show ?thesis
      using True by (simp add: invariant_def FallbackRegistration)
  qed
qed

lemma invariant_step: "invariant s \<Longrightarrow> invariant (step s a)"
  by (cases a)
    (simp_all only: invariant_RegisterDef invariant_RegisterImpl invariant_RegisterFallback
      invariant_AddRegistrationListener invariant_Dispose)

lemma invariant_foldl: "invariant s \<Longrightarrow> invariant (foldl step s ops)"
  by (induction ops arbitrary: s) (simp_all add: invariant_step)

lemma invariant_run: "invariant (run ops)"
  unfolding run_def by (rule invariant_foldl [OF invariant_initial])

subsection \<open>The reference counts\<close>

lemma run_snoc: "run (ops @ [a]) = step (run ops) a"
  by (simp add: run_def)

lemma invariant_refcounts_ok:
  assumes "invariant s"
  shows "refcounts_ok s"
  unfolding refcounts_ok_def
proof (intro ballI, clarify)
  fix i x assume "(i, x) \<in> set (operators (disp s))"
  then have ok: "node_ok (operatorLookupTable (disp s)) (next_addr (disp s)) (live s) (i, x)"
    by (rule inv_coreD(2) [OF invariantD [OF assms]])
  show "0 \<le> refcount x \<and> refcount x \<le> weak_refcount x \<and> refcount x = live_defs i (live s)
      \<and> weak_refcount x = refcount x + live_impls i (live s)"
    using node_okD(3,4) [OF ok] by simp
qed

text \<open>
  C1: in every state reached by registering and disposing, every node has
  \<open>0 \<le> refcount \<le> weak_refcount\<close>, its \<open>refcount\<close> is the number of live definition
  registrations of the node and its \<open>weak_refcount\<close> is \<open>refcount\<close> plus the number of
  live implementation registrations of the node; and this still holds after any further
  operation.
\<close>

theorem refcounts_count_live_handles:
  "refcounts_ok (run ops) \<and> refcounts_ok (step (run ops) a)"
  using invariant_refcounts_ok [OF invariant_run, of ops]
    invariant_refcounts_ok [OF invariant_step [OF invariant_run], of ops a]
  by simp

theorem refcounts_count_live_handles_witness:
  "(0, \<lparr>op = \<lparr>entry_name = (''add'', ''''),
               entry_schema = Some \<lparr>operator_name = (''add'', ''''), signature = ''(a, b)'',
                                     aliasAnalysis = KIND 1\<rparr>,
               kernels = [(Some (Backend ''CPU''), 1, \<lparr>callable = 7, isFallthrough = False\<rparr>)]\<rparr>,
         refcount = 1, weak_refcount = 2\<rparr>)
     \<in> set (operators (disp (run
          [RegisterDef \<lparr>operator_name = (''add'', ''''), signature = ''(a, b)'',
                        aliasAnalysis = KIND 1\<rparr>,
           RegisterImpl (''add'', '''') (Some (Backend ''CPU''))
             \<lparr>callable = 7, isFallthrough = False\<rparr>])))
   \<and> live_defs 0 (live (run
          [RegisterDef \<lparr>operator_name = (''add'', ''''), signature = ''(a, b)'',
                        aliasAnalysis = KIND 1\<rparr>,
           RegisterImpl (''add'', '''') (Some (Backend ''CPU''))
             \<lparr>callable = 7, isFallthrough = False\<rparr>])) = 1
   \<and> live_impls 0 (live (run
          [RegisterDef \<lparr>operator_name = (''add'', ''''), signature = ''(a, b)'',
                        aliasAnalysis = KIND 1\<rparr>,
           RegisterImpl (''add'', '''') (Some (Backend ''CPU''))
             \<lparr>callable = 7, isFallthrough = False\<rparr>])) = 1"
proof -
  let ?ops = "[RegisterDef \<lparr>operator_name = (''add'', ''''), signature = ''(a, b)'',
                        aliasAnalysis = KIND 1\<rparr>,
           RegisterImpl (''add'', '''') (Some (Backend ''CPU''))
             \<lparr>callable = 7, isFallthrough = False\<rparr>]"
  let ?x = "\<lparr>op = \<lparr>entry_name = (''add'', ''''),
               entry_schema = Some \<lparr>operator_name = (''add'', ''''), signature = ''(a, b)'',
                                     aliasAnalysis = KIND 1\<rparr>,
               kernels = [(Some (Backend ''CPU''), 1, \<lparr>callable = 7, isFallthrough = False\<rparr>)]\<rparr>,
         refcount = 1, weak_refcount = 2\<rparr>"
  have m: "operators (disp (run ?ops)) = [(0, ?x)]" by code_simp
  have "refcounts_ok (run ?ops)"
    using refcounts_count_live_handles [of ?ops] by blast
  then have "refcount ?x = live_defs 0 (live (run ?ops))
      \<and> weak_refcount ?x = refcount ?x + live_impls 0 (live (run ?ops))"
    unfolding refcounts_ok_def m by simp
  then show ?thesis unfolding m by simp
qed

subsection \<open>Lookup\<close>

lemma registerDef_handle_name:
  "fst (registerDef sch d) = Inr r \<Longrightarrow> handle_name r = Some (operator_name sch)"
  by (auto simp add: registerDef_def Let_def split: prod.splits sum.splits option.splits)

lemma registerImpl_handle_name:
  "fst (registerImpl n k f d) = Inr r \<Longrightarrow> handle_name r = Some n"
  by (auto simp add: registerImpl_def Let_def split: prod.splits sum.splits option.splits)

lemma registerFallback_handle_name:
  "fst (registerFallback k f d) = Inr r \<Longrightarrow> handle_name r = None"
  using registerFallback_result [of k f d] by auto

lemma live_acquire:
  "r \<in> set (live (acquire p s)) \<Longrightarrow> r \<in> set (live s) \<or> fst p = Inr r"
  by (cases p) (auto simp add: acquire_def split: sum.splits)

lemma live_step:
  assumes "r \<in> set (live (step s a))" "handle_name r = Some n"
  shows "r \<in> set (live s) \<or> registers a = Some n"
proof (cases a)
  case (RegisterDef sch)
  then show ?thesis
    using assms live_acquire [of r "registerDef sch (disp s)" s] registerDef_handle_name
    by fastforce
next
  case (RegisterImpl m k f)
  then show ?thesis
    using assms live_acquire [of r "registerImpl m k f (disp s)" s] registerImpl_handle_name
    by fastforce
next
  case (RegisterFallback k f)
  then show ?thesis
    using assms live_acquire [of r "registerFallback k f (disp s)" s]
      registerFallback_handle_name
    by fastforce
next
  case (AddRegistrationListener l)
  then show ?thesis using assms by simp
next
  case (Dispose r')
  then show ?thesis
    using assms set_remove1_subset [of r' "live s"] by (auto split: if_splits)
qed

lemma live_names_registered:
  "r \<in> set (live (run ops)) \<Longrightarrow> handle_name r = Some n \<Longrightarrow> \<exists>a \<in> set ops. registers a = Some n"
proof (induction ops rule: rev_induct)
  case Nil
  then show ?case by (simp add: run_def initial_def)
next
  case (snoc a ops)
  from live_step [OF snoc.prems(1) [unfolded run_snoc] snoc.prems(2)]
  show ?case using snoc.IH snoc.prems(2) by auto
qed

lemma found_iff_live:
  assumes inv: "invariant s"
  shows "(findSchema (disp s) n = None) = (\<forall>r \<in> set (live s). handle_name r \<noteq> Some n)"
proof
  note core = invariantD [OF inv]
  assume none: "findSchema (disp s) n = None"
  show "\<forall>r \<in> set (live s). handle_name r \<noteq> Some n"
  proof
    fix r assume r: "r \<in> set (live s)"
    show "handle_name r \<noteq> Some n"
    proof
      assume nm: "handle_name r = Some n"
      then obtain h where h: "handle_node r = Some h" by (cases r) auto
      with inv_coreD(4) [OF core r] nm obtain x
        where x: "(h, x) \<in> set (operators (disp s))" "entry_name (op x) = n"
        by (auto simp add: handle_ok_def)
      from node_okD(2) [OF inv_coreD(2) [OF core x(1)]] x(2) none
      show False by (simp add: findSchema_def)
    qed
  qed
next
  note core = invariantD [OF inv]
  assume no: "\<forall>r \<in> set (live s). handle_name r \<noteq> Some n"
  show "findSchema (disp s) n = None"
  proof (rule ccontr)
    assume "findSchema (disp s) n \<noteq> None"
    then obtain i where "operatorLookupTable (disp s) n = Some i"
      by (auto simp add: findSchema_def)
    from inv_coreD(3) [OF core this] obtain x
      where x: "(i, x) \<in> set (operators (disp s))" "entry_name (op x) = n" by blast
    note ok = inv_coreD(2) [OF core x(1)]
    have "0 < live_defs i (live s) + live_impls i (live s)"
      using node_okD(3,4,5) [OF ok] by simp
    from referenced [OF this] obtain r where r: "r \<in> set (live s)" "handle_node r = Some i"
      by blast
    from inv_coreD(4) [OF core r(1)] r(2) obtain y
      where y: "(i, y) \<in> set (operators (disp s))" "handle_name r = Some (entry_name (op y))"
      by (auto simp add: handle_ok_def)
    have "y = x" using same_node [OF inv_coreD(1) [OF core] x(1) y(1)] .
    then show False using no r(1) y(2) x(2) by auto
  qed
qed

text \<open>
  C9: a name that no operation of the history has registered is not found; in a
  reachable state in which the name of a schema is not found, \<open>registerDef\<close> succeeds and
  afterwards \<open>findSchema\<close> returns the handle of a node whose entry carries the registered
  schema; \<open>findSchemaOrThrow\<close> returns the handle that \<open>findSchema\<close> finds and fails when
  \<open>findSchema\<close> finds none.
\<close>

theorem findSchema_registered:
  "((\<forall>a \<in> set ops. registers a \<noteq> Some n) \<longrightarrow> findSchema (disp (run ops)) n = None)
   \<and> (findSchema (disp (run ops)) (operator_name sch) = None \<longrightarrow>
        (\<exists>h x. fst (registerDef sch (disp (run ops))) = Inr (DefRegistration h (operator_name sch))
           \<and> findSchema (snd (registerDef sch (disp (run ops)))) (operator_name sch) = Some h
           \<and> deref (snd (registerDef sch (disp (run ops)))) h = Some x
           \<and> entry_schema (op x) = Some sch))
   \<and> (\<forall>h. findSchema d (name, overload_name) = Some h \<longrightarrow>
          findSchemaOrThrow d name overload_name = Inr h)
   \<and> (findSchema d (name, overload_name) = None \<longrightarrow>
          (\<exists>e. findSchemaOrThrow d name overload_name = Inl e))"
proof (intro conjI impI allI)
  assume "\<forall>a \<in> set ops. registers a \<noteq> Some n"
  then have "\<forall>r \<in> set (live (run ops)). handle_name r \<noteq> Some n"
    using live_names_registered [of _ ops n] by blast
  then show "findSchema (disp (run ops)) n = None"
    by (simp add: found_iff_live [OF invariant_run])
next
  let ?d = "disp (run ops)"
  assume none: "findSchema ?d (operator_name sch) = None"
  note core = invariantD [OF invariant_run [of ops]]
  note new = registerDef_new [OF none inv_core_fresh(1) [OF core]]
  let ?x = "\<lparr>op = OperatorEntry_of_schema sch, refcount = 1, weak_refcount = 1\<rparr>"
  have "map_of (operators ?d) (next_addr ?d) = None"
    using inv_core_fresh(1) [OF core] by (simp add: map_of_eq_None_iff)
  then have "deref (snd (registerDef sch ?d)) (next_addr ?d) = Some ?x"
    by (simp add: deref_def new(2) map_add_def)
  moreover have "entry_schema (op ?x) = Some sch" by (simp add: OperatorEntry_of_schema_def)
  moreover have "findSchema (snd (registerDef sch ?d)) (operator_name sch) = Some (next_addr ?d)"
    by (simp add: findSchema_def new(3))
  ultimately show "\<exists>h x. fst (registerDef sch ?d) = Inr (DefRegistration h (operator_name sch))
           \<and> findSchema (snd (registerDef sch ?d)) (operator_name sch) = Some h
           \<and> deref (snd (registerDef sch ?d)) h = Some x
           \<and> entry_schema (op x) = Some sch"
    using new(1) by blast
next
  fix h assume "findSchema d (name, overload_name) = Some h"
  then show "findSchemaOrThrow d name overload_name = Inr h"
    by (simp add: findSchemaOrThrow_def)
next
  assume "findSchema d (name, overload_name) = None"
  then show "\<exists>e. findSchemaOrThrow d name overload_name = Inl e"
    by (simp add: findSchemaOrThrow_def)
qed

theorem findSchema_registered_witness:
  "findSchema (disp (run [RegisterImpl (''mul'', '''') None \<lparr>callable = 7, isFallthrough = False\<rparr>]))
     (''add'', '''') = None
   \<and> (\<exists>h x. fst (registerDef
              \<lparr>operator_name = (''add'', ''''), signature = ''(a, b)'', aliasAnalysis = KIND 1\<rparr>
              (disp (run [RegisterImpl (''mul'', '''') None \<lparr>callable = 7, isFallthrough = False\<rparr>])))
            = Inr (DefRegistration h (''add'', ''''))
        \<and> findSchema (snd (registerDef
              \<lparr>operator_name = (''add'', ''''), signature = ''(a, b)'', aliasAnalysis = KIND 1\<rparr>
              (disp (run [RegisterImpl (''mul'', '''') None \<lparr>callable = 7, isFallthrough = False\<rparr>]))))
            (''add'', '''') = Some h
        \<and> deref (snd (registerDef
              \<lparr>operator_name = (''add'', ''''), signature = ''(a, b)'', aliasAnalysis = KIND 1\<rparr>
              (disp (run [RegisterImpl (''mul'', '''') None \<lparr>callable = 7, isFallthrough = False\<rparr>]))))
            h = Some x
        \<and> entry_schema (op x)
            = Some \<lparr>operator_name = (''add'', ''''), signature = ''(a, b)'', aliasAnalysis = KIND 1\<rparr>)
   \<and> findSchemaOrThrow
        (disp (run [RegisterImpl (''mul'', '''') None \<lparr>callable = 7, isFallthrough = False\<rparr>]))
        ''mul'' '''' = Inr 0
   \<and> (\<exists>e. findSchemaOrThrow
        (disp (run [RegisterImpl (''mul'', '''') None \<lparr>callable = 7, isFallthrough = False\<rparr>]))
        ''add'' '''' = Inl e)"
proof -
  let ?ops = "[RegisterImpl (''mul'', '''') None \<lparr>callable = 7, isFallthrough = False\<rparr>]"
  let ?sch = "\<lparr>operator_name = (''add'', ''''), signature = ''(a, b)'', aliasAnalysis = KIND 1\<rparr>"
  note t = findSchema_registered [of ?ops "(''add'', '''')" ?sch "disp (run ?ops)"]
  have a: "\<forall>a \<in> set ?ops. registers a \<noteq> Some (''add'', '''')" by simp
  have n: "findSchema (disp (run ?ops)) (''add'', '''') = None"
    using t [of "''mul''" "''''"] a by blast
  have m: "findSchema (disp (run ?ops)) (''mul'', '''') = Some 0" by code_simp
  have s: "operator_name ?sch = (''add'', '''')" by simp
  show ?thesis
    using n m t [of "''mul''" "''''"] t [of "''add''" "''''"] unfolding s by blast
qed

subsection \<open>Listeners\<close>

lemma replay_registered_eq:
  "replay_registered ns l = l @ map (\<lambda>(i, x). OnOperatorRegistered i) ns"
  by (induction ns arbitrary: l) (auto simp add: onOperatorRegistered_def)

lemma callOnOperatorRegistered_eq:
  "callOnOperatorRegistered h ls = map (\<lambda>l. l @ [OnOperatorRegistered h]) ls"
  by (induction ls) (simp_all add: onOperatorRegistered_def)

lemma callOnOperatorDeregistered_eq:
  "callOnOperatorDeregistered h ls = map (\<lambda>l. l @ [OnOperatorDeregistered h]) ls"
  by (induction ls) (simp_all add: onOperatorDeregistered_def)

lemma listeners_addRegistrationListener:
  "listeners (addRegistrationListener l d) =
     listeners d @ [l @ map (\<lambda>(i, x). OnOperatorRegistered i) (operators d)]"
  by (simp add: addRegistrationListener_def addListener_def replay_registered_eq)

lemma extends_refl: "extends ls ls"
  by (simp add: extends_def)

lemma extends_trans: "extends a b \<Longrightarrow> extends b c \<Longrightarrow> extends a c"
  unfolding extends_def by (meson less_le_trans order_trans prefix_order.order_trans)

lemma extends_call: "extends ls (map (\<lambda>l. l @ [e]) ls)"
  by (simp add: extends_def)

lemma extends_add: "extends ls (ls @ [l])"
  by (simp add: extends_def nth_append)

lemma listeners_findOrRegisterWithSchema:
  "listeners (snd (findOrRegisterWithSchema sch d)) = listeners d"
  by (simp add: findOrRegisterWithSchema_def emplace_back_def Let_def
      split: option.splits sum.splits)

lemma listeners_registerDef:
  "listeners (snd (registerDef sch d)) = listeners d
   \<or> (\<exists>h. listeners (snd (registerDef sch d)) = callOnOperatorRegistered h (listeners d))"
proof (cases "findOrRegisterWithSchema sch d")
  case (Pair r d1)
  have l: "listeners d1 = listeners d"
    using listeners_findOrRegisterWithSchema [of sch d] Pair by simp
  show ?thesis
    using l by (cases r) (auto simp add: registerDef_def Pair Let_def split: option.splits)
qed

lemma listeners_registerImpl: "listeners (snd (registerImpl n k f d)) = listeners d"
  by (simp add: registerImpl_def findOrRegisterWithName_def emplace_back_def Let_def
      split: option.splits prod.splits)

lemma listeners_erase_if_unreferenced:
  "listeners (snd (erase_if_unreferenced h n d)) = listeners d"
  by (simp add: erase_if_unreferenced_def Let_def split: option.splits sum.splits)

lemma listeners_deregisterDef:
  "listeners (snd (deregisterDef h n d)) = listeners d
   \<or> listeners (snd (deregisterDef h n d)) = callOnOperatorDeregistered h (listeners d)"
  by (auto simp add: deregisterDef_def listeners_erase_if_unreferenced Let_def
      split: option.splits sum.splits)

lemma listeners_release_impl: "listeners (snd (release_impl h n k t d)) = listeners d"
  by (auto simp add: release_impl_def deregisterImpl_def listeners_erase_if_unreferenced
      split: option.splits sum.splits)

lemma listeners_acquire: "listeners (disp (acquire p s)) = listeners (snd p)"
  by (cases p) (simp add: acquire_def split: sum.splits)

lemma extends_step: "extends (listeners (disp s)) (listeners (disp (step s a)))"
proof (cases a)
  case (RegisterDef sch)
  then show ?thesis
    using listeners_registerDef [of sch "disp s"]
    by (auto simp add: listeners_acquire extends_refl callOnOperatorRegistered_eq extends_call)
next
  case (RegisterImpl n k f)
  then show ?thesis by (simp add: listeners_acquire listeners_registerImpl extends_refl)
next
  case (RegisterFallback k f)
  then show ?thesis by (simp add: listeners_acquire extends_refl)
next
  case (AddRegistrationListener l)
  then show ?thesis by (simp add: listeners_addRegistrationListener extends_add)
next
  case (Dispose r)
  show ?thesis
  proof (cases r)
    case (DefRegistration h n)
    then show ?thesis
      using Dispose listeners_deregisterDef [of h n "disp s"]
      by (auto simp add: extends_refl callOnOperatorDeregistered_eq extends_call)
  next
    case (ImplRegistration h n k t)
    then show ?thesis using Dispose by (simp add: listeners_release_impl extends_refl)
  next
    case (FallbackRegistration k)
    then show ?thesis using Dispose by (simp add: extends_refl)
  qed
qed

lemma extends_foldl: "extends (listeners (disp s)) (listeners (disp (foldl step s ops)))"
proof (induction ops arbitrary: s)
  case Nil
  then show ?case by (simp add: extends_refl)
next
  case (Cons a ops)
  show ?case
    using extends_trans [OF extends_step [of s a] Cons [of "step s a"]] by simp
qed

text \<open>
  C7: \<open>addRegistrationListener\<close> calls the new listener with "registered" for every node
  of \<open>operators\<close>, in list order, and then appends the listener to \<open>listeners\<close>; in every
  later state the listener is still at its position and what it has received begins
  with these calls, so that they precede every later event.
\<close>

theorem addRegistrationListener_replays_first:
  "listeners (addRegistrationListener l d)
     = listeners d @ [l @ map (\<lambda>(i, x). OnOperatorRegistered i) (operators d)]
   \<and> length (listeners (disp s))
       < length (listeners (disp (foldl step (step s (AddRegistrationListener l)) ops)))
   \<and> prefix (l @ map (\<lambda>(i, x). OnOperatorRegistered i) (operators (disp s)))
       (listeners (disp (foldl step (step s (AddRegistrationListener l)) ops))
          ! length (listeners (disp s)))"
proof -
  let ?l' = "l @ map (\<lambda>(i, x). OnOperatorRegistered i) (operators (disp s))"
  let ?s1 = "step s (AddRegistrationListener l)"
  have 1: "listeners (disp ?s1) = listeners (disp s) @ [?l']"
    by (simp add: listeners_addRegistrationListener)
  have "extends (listeners (disp s) @ [?l']) (listeners (disp (foldl step ?s1 ops)))"
    using extends_foldl [of ?s1 ops] unfolding 1 .
  then have "length (listeners (disp s)) < length (listeners (disp (foldl step ?s1 ops)))
     \<and> prefix ((listeners (disp s) @ [?l']) ! length (listeners (disp s)))
         (listeners (disp (foldl step ?s1 ops)) ! length (listeners (disp s)))"
    unfolding extends_def by auto
  then show ?thesis
    by (simp add: listeners_addRegistrationListener)
qed

theorem addRegistrationListener_replays_first_witness:
  "listeners (disp (foldl step
      (step (run [RegisterDef \<lparr>operator_name = (''x'', ''''), signature = ''()'',
                               aliasAnalysis = DEFAULT_KIND\<rparr>,
                  RegisterDef \<lparr>operator_name = (''y'', ''''), signature = ''()'',
                               aliasAnalysis = DEFAULT_KIND\<rparr>])
         (AddRegistrationListener []))
      [RegisterDef \<lparr>operator_name = (''z'', ''''), signature = ''()'',
                    aliasAnalysis = DEFAULT_KIND\<rparr>]))
    = [[OnOperatorRegistered 0, OnOperatorRegistered 1, OnOperatorRegistered 2]]
   \<and> prefix [OnOperatorRegistered 0, OnOperatorRegistered 1]
       (listeners (disp (foldl step
          (step (run [RegisterDef \<lparr>operator_name = (''x'', ''''), signature = ''()'',
                                   aliasAnalysis = DEFAULT_KIND\<rparr>,
                      RegisterDef \<lparr>operator_name = (''y'', ''''), signature = ''()'',
                                   aliasAnalysis = DEFAULT_KIND\<rparr>])
             (AddRegistrationListener []))
          [RegisterDef \<lparr>operator_name = (''z'', ''''), signature = ''()'',
                        aliasAnalysis = DEFAULT_KIND\<rparr>])) ! 0)"
proof -
  let ?s = "run [RegisterDef \<lparr>operator_name = (''x'', ''''), signature = ''()'',
                               aliasAnalysis = DEFAULT_KIND\<rparr>,
                  RegisterDef \<lparr>operator_name = (''y'', ''''), signature = ''()'',
                               aliasAnalysis = DEFAULT_KIND\<rparr>]"
  let ?ops = "[RegisterDef \<lparr>operator_name = (''z'', ''''), signature = ''()'',
                    aliasAnalysis = DEFAULT_KIND\<rparr>]"
  have a: "listeners (disp ?s) = []" by code_simp
  have b: "map fst (operators (disp ?s)) = [0, 1]" by code_simp
  have c: "map (\<lambda>(i, x). OnOperatorRegistered i) (operators (disp ?s))
             = map OnOperatorRegistered (map fst (operators (disp ?s)))"
    by (simp add: case_prod_unfold comp_def)
  have e: "listeners (disp (foldl step (step ?s (AddRegistrationListener [])) ?ops))
    = [[OnOperatorRegistered 0, OnOperatorRegistered 1, OnOperatorRegistered 2]]"
    by code_simp
  from addRegistrationListener_replays_first [of "[]" "disp ?s" ?s ?ops]
  have "prefix ([] @ map (\<lambda>(i, x). OnOperatorRegistered i) (operators (disp ?s)))
       (listeners (disp (foldl step (step ?s (AddRegistrationListener [])) ?ops))
          ! length (listeners (disp ?s)))"
    by blast
  then have "prefix [OnOperatorRegistered 0, OnOperatorRegistered 1]
       (listeners (disp (foldl step (step ?s (AddRegistrationListener [])) ?ops)) ! 0)"
    unfolding c b a by simp
  with e show ?thesis by blast
qed

text \<open>
  C8: \<open>registerImpl\<close> and the disposal of an implementation registration never call a
  listener. In a reachable state in which a name is not found, \<open>registerImpl\<close> creates a
  node with \<open>refcount = 0\<close> and no schema; nevertheless a listener added afterwards is
  called with "registered" for this node, as the last call of the replay.
\<close>

theorem impl_only_entry_replayed:
  "listeners (snd (registerImpl n k f d)) = listeners d
   \<and> listeners (snd (release_impl h' n' k' t' d)) = listeners d
   \<and> (findSchema (disp (run ops)) n = None \<longrightarrow>
        (\<exists>h t x. fst (registerImpl n k f (disp (run ops))) = Inr (ImplRegistration h n k t)
           \<and> deref (snd (registerImpl n k f (disp (run ops)))) h = Some x
           \<and> refcount x = 0 \<and> entry_schema (op x) = None
           \<and> last (listeners (addRegistrationListener l
                      (snd (registerImpl n k f (disp (run ops))))))
               = l @ map (\<lambda>(i, x). OnOperatorRegistered i) (operators (disp (run ops)))
                   @ [OnOperatorRegistered h]))"
proof (intro conjI impI)
  show "listeners (snd (registerImpl n k f d)) = listeners d"
    by (rule listeners_registerImpl)
  show "listeners (snd (release_impl h' n' k' t' d)) = listeners d"
    by (rule listeners_release_impl)
next
  let ?d = "disp (run ops)"
  assume none: "findSchema ?d n = None"
  note core = invariantD [OF invariant_run [of ops]]
  note new = registerImpl_new [OF none inv_core_fresh(1) [OF core], of k f]
  let ?x = "\<lparr>op = \<lparr>entry_name = n, entry_schema = None,
                    kernels = [(k, Suc (next_addr ?d), f)]\<rparr>,
             refcount = 0, weak_refcount = 1\<rparr>"
  have "map_of (operators ?d) (next_addr ?d) = None"
    using inv_core_fresh(1) [OF core] by (simp add: map_of_eq_None_iff)
  then have g: "deref (snd (registerImpl n k f ?d)) (next_addr ?d) = Some ?x"
    by (simp add: deref_def new(2) map_add_def)
  have r: "last (listeners (addRegistrationListener l (snd (registerImpl n k f ?d))))
      = l @ map (\<lambda>(i, x). OnOperatorRegistered i) (operators ?d)
          @ [OnOperatorRegistered (next_addr ?d)]"
    by (simp add: listeners_addRegistrationListener new(2))
  show "\<exists>h t x. fst (registerImpl n k f ?d) = Inr (ImplRegistration h n k t)
           \<and> deref (snd (registerImpl n k f ?d)) h = Some x
           \<and> refcount x = 0 \<and> entry_schema (op x) = None
           \<and> last (listeners (addRegistrationListener l (snd (registerImpl n k f ?d))))
               = l @ map (\<lambda>(i, x). OnOperatorRegistered i) (operators ?d)
                   @ [OnOperatorRegistered h]"
    using new(1) g r by (intro exI [of _ "next_addr ?d"] exI [of _ "Suc (next_addr ?d)"]
        exI [of _ ?x]) simp
qed

theorem impl_only_entry_replayed_witness:
  "listeners (disp (run [AddRegistrationListener [],
       RegisterImpl (''add'', '''') None \<lparr>callable = 7, isFallthrough = False\<rparr>])) = [[]]
   \<and> (\<exists>h t x. fst (registerImpl (''add'', '''') None \<lparr>callable = 7, isFallthrough = False\<rparr>
                  (disp (run [AddRegistrationListener []])))
               = Inr (ImplRegistration h (''add'', '''') None t)
        \<and> deref (snd (registerImpl (''add'', '''') None \<lparr>callable = 7, isFallthrough = False\<rparr>
                  (disp (run [AddRegistrationListener []])))) h = Some x
        \<and> refcount x = 0 \<and> entry_schema (op x) = None
        \<and> last (listeners (addRegistrationListener []
             (snd (registerImpl (''add'', '''') None \<lparr>callable = 7, isFallthrough = False\<rparr>
                  (disp (run [AddRegistrationListener []]))))))
            = [OnOperatorRegistered h])"
proof -
  let ?ops = "[AddRegistrationListener []]"
  let ?f = "\<lparr>callable = 7, isFallthrough = False\<rparr>"
  note t = impl_only_entry_replayed [of "(''add'', '''')" None ?f "disp (run ?ops)" 0
      "(''add'', '''')" None 1 ?ops "[]"]
  have n: "findSchema (disp (run ?ops)) (''add'', '''') = None" by code_simp
  have o: "operators (disp (run ?ops)) = []" by code_simp
  have l: "listeners (disp (run ?ops)) = [[]]" by code_simp
  have r: "run [AddRegistrationListener [], RegisterImpl (''add'', '''') None ?f]
      = acquire (registerImpl (''add'', '''') None ?f (disp (run ?ops))) (run ?ops)"
    by (simp add: run_def)
  have a: "listeners (disp (run [AddRegistrationListener [],
       RegisterImpl (''add'', '''') None ?f])) = [[]]"
    using t l unfolding r by (simp add: listeners_acquire)
  from t n o a show ?thesis by simp
qed

subsection \<open>Erasing a node\<close>

lemma disp_acquire: "disp (acquire p s) = snd p"
  by (cases p) (simp add: acquire_def split: sum.splits)

lemma step_cases:
  assumes inv: "invariant s"
  obtains (same) "operators (disp (step s a)) = operators (disp s)"
      "operatorLookupTable (disp (step s a)) = operatorLookupTable (disp s)"
      "\<forall>r. a = Dispose r \<longrightarrow> r \<notin> set (live s) \<or> handle_node r = None"
  | (add) x where
      "operators (disp (step s a)) = operators (disp s) @ [(next_addr (disp s), x)]"
      "operatorLookupTable (disp (step s a)) =
         (operatorLookupTable (disp s))(entry_name (op x) \<mapsto> next_addr (disp s))"
      "\<forall>r. a \<noteq> Dispose r"
  | (modify) h xh f where "(h, xh) \<in> set (operators (disp s))"
      "operators (disp (step s a)) = modify_nodes h f (operators (disp s))"
      "entry_name (op (f xh)) = entry_name (op xh)"
      "operatorLookupTable (disp (step s a)) = operatorLookupTable (disp s)"
      "\<forall>r. a = Dispose r \<longrightarrow> handle_node r = Some h \<and> weak_refcount xh \<noteq> 1"
  | (erase) r h xh where "a = Dispose r" "r \<in> set (live s)" "handle_node r = Some h"
      "(h, xh) \<in> set (operators (disp s))" "weak_refcount xh = 1"
      "operators (disp (step s a)) = erase_nodes h (operators (disp s))"
      "operatorLookupTable (disp (step s a)) =
         (operatorLookupTable (disp s))(entry_name (op xh) := None)"
proof (cases a)
  case (RegisterDef sch)
  let ?d = "disp s" and ?n = "operator_name sch"
  note core = invariantD [OF inv]
  show ?thesis
  proof (cases "findSchema ?d ?n")
    case None
    note new = registerDef_new [OF None inv_core_fresh(1) [OF core]]
    show ?thesis
      by (rule add [of "\<lparr>op = OperatorEntry_of_schema sch, refcount = 1, weak_refcount = 1\<rparr>"])
        (simp_all add: RegisterDef disp_acquire new OperatorEntry_of_schema_def)
  next
    case (Some h)
    then have "operatorLookupTable ?d ?n = Some h" by (simp add: findSchema_def)
    from inv_coreD(3) [OF core this] obtain x
      where x: "(h, x) \<in> set (operators ?d)" "entry_name (op x) = ?n" by blast
    have g: "deref ?d h = Some x" using x(1) by (simp add: invariant_deref [OF inv])
    show ?thesis
    proof (cases "entry_schema (op x)")
      case None
      have "registerDef sch ?d = (Inl (InternalAssert ''schema_.has_value()''), ?d)"
        using Some g None by (rule registerDef_no_schema)
      then show ?thesis by (intro same) (simp_all add: RegisterDef disp_acquire)
    next
      case fs: (Some fs)
      note r = registerDef_found [OF Some g fs]
      show ?thesis
      proof (cases "fst (registerDef sch ?d)")
        case (Inl e)
        then have "snd (registerDef sch ?d) = ?d" using r by (auto split: if_splits)
        then show ?thesis by (intro same) (simp_all add: RegisterDef disp_acquire)
      next
        case (Inr r')
        then have res: "snd (registerDef sch ?d) = registered_again sch h x fs ?d"
          using r by (auto split: if_splits)
        show ?thesis
          by (rule modify [where f = "\<lambda>y. y\<lparr>op := (if aliasAnalysis sch \<noteq> DEFAULT_KIND
                          \<and> aliasAnalysis fs = DEFAULT_KIND
                      then updateSchemaAliasAnalysis (aliasAnalysis sch) (op y) else op y),
               refcount := refcount y + 1, weak_refcount := weak_refcount y + 1\<rparr>", OF x(1)])
            (simp_all add: RegisterDef disp_acquire res registered_again_fields
              updateSchemaAliasAnalysis_def)
      qed
    qed
  qed
next
  case (RegisterImpl n k f)
  let ?d = "disp s"
  note core = invariantD [OF inv]
  show ?thesis
  proof (cases "findSchema ?d n")
    case None
    note new = registerImpl_new [OF None inv_core_fresh(1) [OF core], of k f]
    show ?thesis
      by (rule add [of "\<lparr>op = \<lparr>entry_name = n, entry_schema = None,
                      kernels = [(k, Suc (next_addr ?d), f)]\<rparr>,
               refcount = 0, weak_refcount = 1\<rparr>"])
        (simp_all add: RegisterImpl disp_acquire new)
  next
    case (Some h)
    then have "operatorLookupTable ?d n = Some h" by (simp add: findSchema_def)
    from inv_coreD(3) [OF core this] obtain x
      where x: "(h, x) \<in> set (operators ?d)" "entry_name (op x) = n" by blast
    have g: "deref ?d h = Some x" using x(1) by (simp add: invariant_deref [OF inv])
    note found = registerImpl_found [OF Some g, of k f]
    show ?thesis
      by (rule modify [where f = "\<lambda>y. y\<lparr>op := registerKernel k (next_addr ?d) f (op y),
                     weak_refcount := weak_refcount y + 1\<rparr>", OF x(1)])
        (simp_all add: RegisterImpl disp_acquire found registerKernel_def)
  qed
next
  case (RegisterFallback k f)
  show ?thesis by (rule same) (simp_all add: RegisterFallback disp_acquire)
next
  case (AddRegistrationListener l)
  show ?thesis by (rule same) (simp_all add: AddRegistrationListener)
next
  case (Dispose r)
  let ?d = "disp s"
  show ?thesis
  proof (cases "r \<in> set (live s)")
    case False
    then show ?thesis by (intro same) (simp_all add: Dispose)
  next
    case True
    show ?thesis
    proof (cases r)
      case (DefRegistration h n)
      from live_def_node [OF inv True [unfolded DefRegistration]] obtain x fs
        where x: "(h, x) \<in> set (operators ?d)" "deref ?d h = Some x"
          "entry_name (op x) = n" "entry_schema (op x) = Some fs" "operator_name fs = n"
          "0 < refcount x" "0 < weak_refcount x" "weak_refcount x = 1 \<longrightarrow> kernels (op x) = []"
        by blast
      note e = deregisterDef_effect [OF x(2) x(4) x(5) x(6) x(7) x(8)]
      show ?thesis
      proof (cases "weak_refcount x = 1")
        case w: True
        show ?thesis
          using True w
          by (intro erase [OF Dispose True _ x(1) w])
            (simp_all add: Dispose DefRegistration e x(3))
      next
        case w: False
        show ?thesis
          using True w
          by (intro modify [where f = "\<lambda>y. y\<lparr>refcount := refcount y - 1,
                  weak_refcount := weak_refcount y - 1\<rparr>", OF x(1)])
            (simp_all add: Dispose DefRegistration e)
      qed
    next
      case (ImplRegistration h n k t)
      from live_impl_node [OF inv True [unfolded ImplRegistration]] obtain x
        where x: "(h, x) \<in> set (operators ?d)" "deref ?d h = Some x"
          "entry_name (op x) = n" "has_kernel k t (op x)" "0 < weak_refcount x"
          "weak_refcount x = 1 \<longrightarrow> erase_kernel k t (kernels (op x)) = []"
        by blast
      note e = release_impl_effect [OF x(2) x(3) x(4) x(5) x(6)]
      show ?thesis
      proof (cases "weak_refcount x = 1")
        case w: True
        show ?thesis
          using True w
          by (intro erase [OF Dispose True _ x(1) w])
            (simp_all add: Dispose ImplRegistration e x(3))
      next
        case w: False
        show ?thesis
          using True w
          by (intro modify [where f = "\<lambda>y. y\<lparr>op := (op x)\<lparr>kernels :=
                    erase_kernel k t (kernels (op x))\<rparr>,
                  weak_refcount := weak_refcount y - 1\<rparr>", OF x(1)])
            (simp_all add: Dispose ImplRegistration e)
      qed
    next
      case (FallbackRegistration k)
      show ?thesis
        using True by (intro same) (simp_all add: Dispose FallbackRegistration)
    qed
  qed
qed

lemma node_present:
  assumes inv: "invariant s" and node: "(i, x) \<in> set (operators (disp s))"
  shows "deref (disp s) i = Some x" and "findSchema (disp s) (entry_name (op x)) = Some i"
    and "0 < weak_refcount x"
proof -
  note ok = inv_coreD(2) [OF invariantD [OF inv] node]
  show "deref (disp s) i = Some x" using node by (simp add: invariant_deref [OF inv])
  show "findSchema (disp s) (entry_name (op x)) = Some i"
    using node_okD(2) [OF ok] by (simp add: findSchema_def)
  show "0 < weak_refcount x" using node_okD(5) [OF ok] .
qed

lemma node_fate:
  assumes inv: "invariant s" and node: "(i, x) \<in> set (operators (disp s))"
  shows "(\<exists>r. a = Dispose r \<and> r \<in> set (live s) \<and> handle_node r = Some i \<and> weak_refcount x = 1)
         \<and> deref (disp (step s a)) i = None
         \<and> findSchema (disp (step s a)) (entry_name (op x)) = None
       \<or> \<not> (\<exists>r. a = Dispose r \<and> r \<in> set (live s) \<and> handle_node r = Some i \<and> weak_refcount x = 1)
         \<and> (\<exists>x'. deref (disp (step s a)) i = Some x' \<and> 0 < weak_refcount x')
         \<and> findSchema (disp (step s a)) (entry_name (op x)) = Some i"
proof -
  note inv' = invariant_step [OF inv, of a]
  note d = inv_coreD(1) [OF invariantD [OF inv]]
  have kept: ?thesis
    if "(i, x') \<in> set (operators (disp (step s a)))" "entry_name (op x') = entry_name (op x)"
      "\<not> (\<exists>r. a = Dispose r \<and> r \<in> set (live s) \<and> handle_node r = Some i \<and> weak_refcount x = 1)"
    for x'
    using node_present [OF inv' that(1)] that(2,3) by auto
  from inv show ?thesis
  proof (cases rule: step_cases [where a = a])
    case same
    show ?thesis
      by (rule kept [of x]) (use node same in auto)
  next
    case (add y)
    show ?thesis
      by (rule kept [of x]) (use node add in auto)
  next
    case (modify h xh f)
    show ?thesis
    proof (cases "i = h")
      case True
      then have x: "x = xh" using same_node [OF d modify(1)] node by simp
      have "(i, f x) \<in> set (operators (disp (step s a)))"
        using node True by (force simp add: modify(2) set_modify_nodes)
      then show ?thesis
        by (rule kept) (use modify(3,5) x True in auto)
    next
      case False
      have "(i, x) \<in> set (operators (disp (step s a)))"
        using node False by (force simp add: modify(2) set_modify_nodes)
      then show ?thesis
        by (rule kept) (use modify(5) False in auto)
    qed
  next
    case (erase r h xh)
    show ?thesis
    proof (cases "i = h")
      case True
      then have x: "x = xh" using same_node [OF d erase(4)] node by simp
      have "i \<notin> fst ` set (operators (disp (step s a)))"
        using True by (auto simp add: erase(6) set_erase_nodes)
      then have "deref (disp (step s a)) i = None" by (rule deref_fresh)
      moreover have "findSchema (disp (step s a)) (entry_name (op x)) = None"
        by (simp add: findSchema_def erase(7) x)
      moreover have "\<exists>r. a = Dispose r \<and> r \<in> set (live s) \<and> handle_node r = Some i
          \<and> weak_refcount x = 1"
        using erase(1,2,3,5) True x by blast
      ultimately show ?thesis by blast
    next
      case False
      have "(i, x) \<in> set (operators (disp (step s a)))"
        using node False by (simp add: erase(6) set_erase_nodes)
      then show ?thesis
        by (rule kept) (use erase(1,3) False in auto)
    qed
  qed
qed

text \<open>
  C2: for a node of a reachable state and any operation, the node is gone from
  \<open>operators\<close> after the operation exactly when the operation disposes of a live handle of
  the node while the node's \<open>weak_refcount\<close> is 1 (so that it reaches 0), and exactly then
  its name is gone from the lookup table; otherwise the node is still there with a
  positive \<open>weak_refcount\<close>. Consequently a name is not found exactly when no live handle
  (definition or implementation registration) carries it.
\<close>

theorem entry_erased_exactly_at_zero:
  "(deref (disp (run ops)) i = Some x \<longrightarrow>
      ((deref (disp (step (run ops) a)) i = None)
         = (\<exists>r. a = Dispose r \<and> r \<in> set (live (run ops)) \<and> handle_node r = Some i
                \<and> weak_refcount x = 1))
      \<and> ((findSchema (disp (step (run ops) a)) (entry_name (op x)) = None)
         = (\<exists>r. a = Dispose r \<and> r \<in> set (live (run ops)) \<and> handle_node r = Some i
                \<and> weak_refcount x = 1))
      \<and> (deref (disp (step (run ops) a)) i \<noteq> None \<longrightarrow>
           (\<exists>x'. deref (disp (step (run ops) a)) i = Some x' \<and> 0 < weak_refcount x')
           \<and> findSchema (disp (step (run ops) a)) (entry_name (op x)) = Some i))
   \<and> ((findSchema (disp (run ops)) n = None)
        = (\<forall>r \<in> set (live (run ops)). handle_name r \<noteq> Some n))"
proof (intro conjI impI)
  assume "deref (disp (run ops)) i = Some x"
  then have node: "(i, x) \<in> set (operators (disp (run ops)))"
    by (simp add: invariant_deref [OF invariant_run])
  note f = node_fate [OF invariant_run node, of a]
  show "(deref (disp (step (run ops) a)) i = None)
         = (\<exists>r. a = Dispose r \<and> r \<in> set (live (run ops)) \<and> handle_node r = Some i
                \<and> weak_refcount x = 1)"
    using f by auto
  show "(findSchema (disp (step (run ops) a)) (entry_name (op x)) = None)
         = (\<exists>r. a = Dispose r \<and> r \<in> set (live (run ops)) \<and> handle_node r = Some i
                \<and> weak_refcount x = 1)"
    using f by auto
  assume "deref (disp (step (run ops) a)) i \<noteq> None"
  then show "\<exists>x'. deref (disp (step (run ops) a)) i = Some x' \<and> 0 < weak_refcount x'"
    and "findSchema (disp (step (run ops) a)) (entry_name (op x)) = Some i"
    using f by auto
next
  show "(findSchema (disp (run ops)) n = None)
        = (\<forall>r \<in> set (live (run ops)). handle_name r \<noteq> Some n)"
    by (rule found_iff_live [OF invariant_run])
qed

theorem entry_erased_exactly_at_zero_witness:
  "findSchema (disp (step (run
       [RegisterDef \<lparr>operator_name = (''add'', ''''), signature = ''(a, b)'',
                     aliasAnalysis = KIND 1\<rparr>,
        RegisterImpl (''add'', '''') (Some (Backend ''CPU''))
          \<lparr>callable = 7, isFallthrough = False\<rparr>])
       (Dispose (ImplRegistration 0 (''add'', '''') (Some (Backend ''CPU'')) 1))))
     (''add'', '''') = Some 0
   \<and> deref (disp (step (run
       [RegisterDef \<lparr>operator_name = (''add'', ''''), signature = ''(a, b)'',
                     aliasAnalysis = KIND 1\<rparr>,
        RegisterImpl (''add'', '''') (Some (Backend ''CPU''))
          \<lparr>callable = 7, isFallthrough = False\<rparr>,
        Dispose (ImplRegistration 0 (''add'', '''') (Some (Backend ''CPU'')) 1)])
       (Dispose (DefRegistration 0 (''add'', ''''))))) 0 = None
   \<and> findSchema (disp (step (run
       [RegisterDef \<lparr>operator_name = (''add'', ''''), signature = ''(a, b)'',
                     aliasAnalysis = KIND 1\<rparr>,
        RegisterImpl (''add'', '''') (Some (Backend ''CPU''))
          \<lparr>callable = 7, isFallthrough = False\<rparr>,
        Dispose (ImplRegistration 0 (''add'', '''') (Some (Backend ''CPU'')) 1)])
       (Dispose (DefRegistration 0 (''add'', ''''))))) (''add'', '''') = None"
proof -
  let ?sch = "\<lparr>operator_name = (''add'', ''''), signature = ''(a, b)'', aliasAnalysis = KIND 1\<rparr>"
  let ?f = "\<lparr>callable = 7, isFallthrough = False\<rparr>"
  let ?impl = "ImplRegistration 0 (''add'', '''') (Some (Backend ''CPU'')) 1"
  let ?def = "DefRegistration 0 (''add'', '''')"
  let ?ops0 = "[RegisterDef ?sch, RegisterImpl (''add'', '''') (Some (Backend ''CPU'')) ?f]"
  let ?ops1 = "[RegisterDef ?sch, RegisterImpl (''add'', '''') (Some (Backend ''CPU'')) ?f,
                Dispose ?impl]"
  let ?x0 = "\<lparr>op = \<lparr>entry_name = (''add'', ''''), entry_schema = Some ?sch,
                     kernels = [(Some (Backend ''CPU''), 1, ?f)]\<rparr>,
              refcount = 1, weak_refcount = 2\<rparr>"
  let ?x1 = "\<lparr>op = \<lparr>entry_name = (''add'', ''''), entry_schema = Some ?sch, kernels = []\<rparr>,
              refcount = 1, weak_refcount = 1\<rparr>"
  have g0: "deref (disp (run ?ops0)) 0 = Some ?x0" by code_simp
  have g1: "deref (disp (run ?ops1)) 0 = Some ?x1" by code_simp
  have l1: "live (run ?ops1) = [?def]" by code_simp
  have n0: "entry_name (op ?x0) = (''add'', '''')" by simp
  have n1: "entry_name (op ?x1) = (''add'', '''')" by simp
  have e1: "\<exists>r. Dispose ?def = Dispose r \<and> r \<in> set (live (run ?ops1)) \<and> handle_node r = Some 0
      \<and> weak_refcount ?x1 = 1"
    unfolding l1 by simp
  have e0: "\<not> (\<exists>r. Dispose ?impl = Dispose r \<and> r \<in> set (live (run ?ops0))
      \<and> handle_node r = Some 0 \<and> weak_refcount ?x0 = 1)"
    by simp
  note t0 = entry_erased_exactly_at_zero [of ?ops0 0 ?x0 "Dispose ?impl" "(''add'', '''')"]
  note t1 = entry_erased_exactly_at_zero [of ?ops1 0 ?x1 "Dispose ?def" "(''add'', '''')"]
  have a: "findSchema (disp (step (run ?ops0) (Dispose ?impl))) (''add'', '''') = Some 0"
    using t0 g0 e0 unfolding n0 by blast
  have b: "deref (disp (step (run ?ops1) (Dispose ?def))) 0 = None"
    using t1 g1 e1 by blast
  have c: "findSchema (disp (step (run ?ops1) (Dispose ?def))) (''add'', '''') = None"
    using t1 g1 e1 unfolding n1 by blast
  from a b c show ?thesis by blast
qed

subsection \<open>When the listeners are called\<close>

lemma calls_findOrRegisterWithSchema:
  "calls (snd (findOrRegisterWithSchema sch d)) = calls d"
  by (simp add: findOrRegisterWithSchema_def emplace_back_def Let_def
      split: option.splits sum.splits)

lemma calls_erase_if_unreferenced:
  "calls (snd (erase_if_unreferenced h n d)) = calls d"
  by (simp add: erase_if_unreferenced_def Let_def split: option.splits sum.splits)

lemma invoke_present:
  assumes "deref d h = Some x" "findSchema d (entry_name (op x)) = Some h"
  shows "invoke j e h d = Call j e (Some x) (Some h)"
  using assms by (simp add: invoke_def)

lemma calls_notify_registered:
  assumes "deref d h = Some x" "findSchema d (entry_name (op x)) = Some h"
  shows "calls (notify_registered h d) =
     calls d @ map (\<lambda>j. Call j (OnOperatorRegistered h) (Some x) (Some h))
                   [0..<length (listeners d)]"
  by (simp add: notify_registered_def invoke_present [OF assms])

lemma calls_notify_deregistered:
  assumes "deref d h = Some x" "findSchema d (entry_name (op x)) = Some h"
  shows "calls (notify_deregistered h d) =
     calls d @ map (\<lambda>j. Call j (OnOperatorDeregistered h) (Some x) (Some h))
                   [0..<length (listeners d)]"
  by (simp add: notify_deregistered_def invoke_present [OF assms])

lemma registerDef_failure:
  assumes "fst (registerDef sch d) = Inl e"
  shows "listeners (snd (registerDef sch d)) = listeners d"
    and "calls (snd (registerDef sch d)) = calls d"
proof -
  obtain r d1 where p: "findOrRegisterWithSchema sch d = (r, d1)"
    by (cases "findOrRegisterWithSchema sch d")
  have l: "listeners d1 = listeners d"
    using listeners_findOrRegisterWithSchema [of sch d] p by simp
  have c: "calls d1 = calls d"
    using calls_findOrRegisterWithSchema [of sch d] p by simp
  show "listeners (snd (registerDef sch d)) = listeners d"
    using l assms by (cases r) (auto simp add: registerDef_def p Let_def split: option.splits)
  show "calls (snd (registerDef sch d)) = calls d"
    using c assms by (cases r) (auto simp add: registerDef_def p Let_def split: option.splits)
qed

lemma registerDef_success:
  assumes "fst (registerDef sch d) = Inr r"
  shows "\<exists>h x2. r = DefRegistration h (operator_name sch)
      \<and> fst (findOrRegisterWithSchema sch d) = Inr h
      \<and> deref (increment_refcounts h (snd (findOrRegisterWithSchema sch d))) h = Some x2
      \<and> snd (registerDef sch d) =
          (if refcount x2 = 1
           then notify_registered h
                  (increment_refcounts h (snd (findOrRegisterWithSchema sch d)))
           else increment_refcounts h (snd (findOrRegisterWithSchema sch d)))"
proof (cases "findOrRegisterWithSchema sch d")
  case (Pair q d1)
  show ?thesis
  proof (cases q)
    case (Inl e)
    then show ?thesis using assms by (simp add: registerDef_def Pair)
  next
    case (Inr h)
    show ?thesis
    proof (cases "deref (increment_refcounts h d1) h")
      case None
      then show ?thesis using assms by (simp add: registerDef_def Pair Inr Let_def)
    next
      case (Some x2)
      then show ?thesis
        using assms by (auto simp add: registerDef_def Pair Inr Let_def)
    qed
  qed
qed

lemma findOrRegisterWithSchema_visible:
  assumes "fst (findOrRegisterWithSchema sch d) = Inr h"
  shows "findSchema (snd (findOrRegisterWithSchema sch d)) (operator_name sch) = Some h"
  using assms
  by (auto simp add: findOrRegisterWithSchema_def findSchema_def emplace_back_def emplace_def
      Let_def split: option.splits sum.splits if_splits)

lemma findOrRegisterWithSchema_refcount:
  assumes inv: "invariant s" and "fst (findOrRegisterWithSchema sch (disp s)) = Inr h"
  shows "\<exists>x1. deref (snd (findOrRegisterWithSchema sch (disp s))) h = Some x1
      \<and> refcount x1 = (case deref (disp s) h of None \<Rightarrow> 0 | Some x \<Rightarrow> refcount x)
      \<and> entry_name (op x1) = operator_name sch"
proof (cases "findSchema (disp s) (operator_name sch)")
  case None
  note fresh = inv_core_fresh(1) [OF invariantD [OF inv]]
  have m: "map_of (operators (disp s)) (next_addr (disp s)) = None"
    using fresh by (simp add: map_of_eq_None_iff)
  have h: "h = next_addr (disp s)"
    using assms(2) None
    by (simp add: findOrRegisterWithSchema_def emplace_back_def Let_def)
  have "deref (snd (findOrRegisterWithSchema sch (disp s))) (next_addr (disp s))
          = Some (OperatorDef (OperatorEntry_of_schema sch))"
    using None m
    by (simp add: findOrRegisterWithSchema_def emplace_back_def Let_def deref_def map_add_def)
  then show ?thesis
    using deref_fresh [OF fresh] by (simp add: h OperatorDef_def OperatorEntry_of_schema_def)
next
  case (Some i)
  show ?thesis
  proof (cases "deref (disp s) i")
    case None
    then show ?thesis
      using assms(2) Some by (simp add: findOrRegisterWithSchema_def handle_schema_def)
  next
    case x: (Some x)
    have "operatorLookupTable (disp s) (operator_name sch) = Some i"
      using Some by (simp add: findSchema_def)
    from inv_coreD(3) [OF invariantD [OF inv] this] obtain y
      where y: "(i, y) \<in> set (operators (disp s))" "entry_name (op y) = operator_name sch"
      by blast
    have "deref (disp s) i = Some y" using y(1) by (simp add: invariant_deref [OF inv])
    then have n: "entry_name (op x) = operator_name sch" using x y(2) by simp
    show ?thesis
    proof (cases "entry_schema (op x)")
      case None
      then show ?thesis
        using assms(2) Some x
        by (simp add: findOrRegisterWithSchema_def handle_schema_def schema_of_def)
    next
      case fs: (Some fs)
      note f = findOrRegisterWithSchema_found [OF Some x fs]
      have "h = i" using assms(2) unfolding f by (auto split: if_splits)
      then show ?thesis
        using assms(2) x n unfolding f
        by (auto simp add: deref_modify_node updateSchemaAliasAnalysis_def split: if_splits)
    qed
  qed
qed

lemma deregisterDef_steps:
  assumes "deref d h = Some x" "entry_schema (op x) = Some fs" "operator_name fs = n"
    "0 < refcount x" "0 < weak_refcount x"
  shows "deregisterDef h n d =
     erase_if_unreferenced h n
       (if refcount x = 1
        then notify_deregistered h (decrement_refcounts h d)
        else decrement_refcounts h d)"
proof -
  have c: "(0 = refcount x - 1) = (refcount x = 1)"
    using assms(4) by auto
  show ?thesis
    using assms unfolding c [symmetric]
    by (simp add: deregisterDef_def handle_schema_def schema_of_def Let_def)
qed

text \<open>
  C6: in a reachable state \<open>d\<close>, \<open>registerDef\<close> that fails invokes no callback.
  \<open>registerDef\<close> that succeeds reaches, after find-or-create and the two increments, a
  state \<open>d2\<close> in which the node \<open>x2\<close> is in \<open>operators\<close> and its name is found, and up to
  which no callback has been invoked; it returns \<open>d2\<close> unchanged when the \<open>refcount\<close>
  of \<open>x2\<close> is above 1, and when it is 1, that is when it was 0 or the node is new, it
  invokes "registered" once on every listener, and every one of these invocations finds
  the node \<open>x2\<close>, with its counters already incremented, behind the handle and the handle
  under the name. Disposing of a live definition registration decrements both counters
  without invoking a callback, then invokes "deregistered" once on every listener exactly
  when the \<open>refcount\<close> was 1, and every one of these invocations finds the node \<open>x'\<close> with
  the decremented counters behind the handle and the handle under the name; everything
  else \<open>deregisterDef\<close> does happens after that and invokes no callback, and when the
  \<open>weak_refcount\<close> was 1 too it leaves neither the node nor the name.
\<close>

theorem listeners_called_at_refcount_boundaries:
  "(\<forall>e. fst (registerDef sch (disp (run ops))) = Inl e \<longrightarrow>
       listeners (snd (registerDef sch (disp (run ops)))) = listeners (disp (run ops))
       \<and> calls (snd (registerDef sch (disp (run ops)))) = calls (disp (run ops)))
   \<and> (\<forall>r. fst (registerDef sch (disp (run ops))) = Inr r \<longrightarrow>
        (\<exists>h d2 x2. r = DefRegistration h (operator_name sch)
            \<and> d2 = increment_refcounts h (snd (findOrRegisterWithSchema sch (disp (run ops))))
            \<and> deref d2 h = Some x2 \<and> entry_name (op x2) = operator_name sch
            \<and> findSchema d2 (operator_name sch) = Some h
            \<and> listeners d2 = listeners (disp (run ops))
            \<and> calls d2 = calls (disp (run ops))
            \<and> refcount x2
                = (case deref (disp (run ops)) h of None \<Rightarrow> 0 | Some x \<Rightarrow> refcount x) + 1
            \<and> snd (registerDef sch (disp (run ops))) =
                (if refcount x2 = 1 then notify_registered h d2 else d2)
            \<and> listeners (snd (registerDef sch (disp (run ops)))) =
                (if refcount x2 = 1
                 then map (\<lambda>l. l @ [OnOperatorRegistered h]) (listeners (disp (run ops)))
                 else listeners (disp (run ops)))
            \<and> calls (snd (registerDef sch (disp (run ops)))) =
                calls (disp (run ops)) @
                (if refcount x2 = 1
                 then map (\<lambda>j. Call j (OnOperatorRegistered h) (Some x2) (Some h))
                          [0..<length (listeners (disp (run ops)))]
                 else [])))
   \<and> (DefRegistration h n \<in> set (live (run ops)) \<longrightarrow>
        (\<exists>x x' d1 d2. deref (disp (run ops)) h = Some x \<and> 0 < refcount x
            \<and> x' = x\<lparr>refcount := refcount x - 1, weak_refcount := weak_refcount x - 1\<rparr>
            \<and> d1 = decrement_refcounts h (disp (run ops))
            \<and> listeners d1 = listeners (disp (run ops))
            \<and> calls d1 = calls (disp (run ops))
            \<and> deref d1 h = Some x' \<and> entry_name (op x') = n \<and> findSchema d1 n = Some h
            \<and> d2 = (if refcount x = 1 then notify_deregistered h d1 else d1)
            \<and> listeners d2 =
                (if refcount x = 1
                 then map (\<lambda>l. l @ [OnOperatorDeregistered h]) (listeners (disp (run ops)))
                 else listeners (disp (run ops)))
            \<and> calls d2 =
                calls (disp (run ops)) @
                (if refcount x = 1
                 then map (\<lambda>j. Call j (OnOperatorDeregistered h) (Some x') (Some h))
                          [0..<length (listeners (disp (run ops)))]
                 else [])
            \<and> deregisterDef h n (disp (run ops)) = erase_if_unreferenced h n d2
            \<and> listeners (snd (deregisterDef h n (disp (run ops)))) = listeners d2
            \<and> calls (snd (deregisterDef h n (disp (run ops)))) = calls d2
            \<and> (weak_refcount x = 1 \<longrightarrow>
                  deref (snd (deregisterDef h n (disp (run ops)))) h = None
                  \<and> findSchema (snd (deregisterDef h n (disp (run ops)))) n = None)))"
proof (intro conjI allI impI)
  fix e assume f: "fst (registerDef sch (disp (run ops))) = Inl e"
  show "listeners (snd (registerDef sch (disp (run ops)))) = listeners (disp (run ops))"
    using f by (rule registerDef_failure(1))
  show "calls (snd (registerDef sch (disp (run ops)))) = calls (disp (run ops))"
    using f by (rule registerDef_failure(2))
next
  let ?d = "disp (run ops)"
  fix r assume "fst (registerDef sch ?d) = Inr r"
  from registerDef_success [OF this] obtain h x2
    where s: "r = DefRegistration h (operator_name sch)"
      "fst (findOrRegisterWithSchema sch ?d) = Inr h"
      "deref (increment_refcounts h (snd (findOrRegisterWithSchema sch ?d))) h = Some x2"
      "snd (registerDef sch ?d) =
          (if refcount x2 = 1
           then notify_registered h
                  (increment_refcounts h (snd (findOrRegisterWithSchema sch ?d)))
           else increment_refcounts h (snd (findOrRegisterWithSchema sch ?d)))"
    by blast
  let ?d2 = "increment_refcounts h (snd (findOrRegisterWithSchema sch ?d))"
  from findOrRegisterWithSchema_refcount [OF invariant_run s(2)] obtain x1
    where x1: "deref (snd (findOrRegisterWithSchema sch ?d)) h = Some x1"
      "refcount x1 = (case deref ?d h of None \<Rightarrow> 0 | Some x \<Rightarrow> refcount x)"
      "entry_name (op x1) = operator_name sch"
    by blast
  have c: "refcount x2 = (case deref ?d h of None \<Rightarrow> 0 | Some x \<Rightarrow> refcount x) + 1"
    using s(3) x1(1) x1(2) by (auto simp add: deref_increment_refcounts)
  have n: "entry_name (op x2) = operator_name sch"
    using s(3) x1(1) x1(3) by (auto simp add: deref_increment_refcounts)
  have v: "findSchema ?d2 (operator_name sch) = Some h"
    using findOrRegisterWithSchema_visible [OF s(2)] by (simp add: findSchema_def)
  have v': "findSchema ?d2 (entry_name (op x2)) = Some h"
    unfolding n by (rule v)
  have l: "listeners ?d2 = listeners ?d"
    by (simp add: listeners_findOrRegisterWithSchema)
  have k: "calls ?d2 = calls ?d"
    by (simp add: calls_findOrRegisterWithSchema)
  have fl: "listeners (snd (registerDef sch ?d)) =
      (if refcount x2 = 1
       then map (\<lambda>l. l @ [OnOperatorRegistered h]) (listeners ?d)
       else listeners ?d)"
    unfolding s(4) using l by (simp add: callOnOperatorRegistered_eq)
  have fc: "calls (snd (registerDef sch ?d)) =
      calls ?d @
      (if refcount x2 = 1
       then map (\<lambda>j. Call j (OnOperatorRegistered h) (Some x2) (Some h))
                [0..<length (listeners ?d)]
       else [])"
    unfolding s(4) using calls_notify_registered [OF s(3) v'] l k by simp
  show "\<exists>h d2 x2. r = DefRegistration h (operator_name sch)
            \<and> d2 = increment_refcounts h (snd (findOrRegisterWithSchema sch ?d))
            \<and> deref d2 h = Some x2 \<and> entry_name (op x2) = operator_name sch
            \<and> findSchema d2 (operator_name sch) = Some h
            \<and> listeners d2 = listeners ?d
            \<and> calls d2 = calls ?d
            \<and> refcount x2 = (case deref ?d h of None \<Rightarrow> 0 | Some x \<Rightarrow> refcount x) + 1
            \<and> snd (registerDef sch ?d) =
                (if refcount x2 = 1 then notify_registered h d2 else d2)
            \<and> listeners (snd (registerDef sch ?d)) =
                (if refcount x2 = 1
                 then map (\<lambda>l. l @ [OnOperatorRegistered h]) (listeners ?d)
                 else listeners ?d)
            \<and> calls (snd (registerDef sch ?d)) =
                calls ?d @
                (if refcount x2 = 1
                 then map (\<lambda>j. Call j (OnOperatorRegistered h) (Some x2) (Some h))
                          [0..<length (listeners ?d)]
                 else [])"
    using s(1) s(3) n v l k c s(4) fl fc by blast
next
  let ?d = "disp (run ops)"
  assume r: "DefRegistration h n \<in> set (live (run ops))"
  from live_def_node [OF invariant_run r] obtain x fs
    where x: "(h, x) \<in> set (operators ?d)" "deref ?d h = Some x"
      "entry_name (op x) = n" "entry_schema (op x) = Some fs" "operator_name fs = n"
      "0 < refcount x" "0 < weak_refcount x" "weak_refcount x = 1 \<longrightarrow> kernels (op x) = []"
    by blast
  let ?d1 = "decrement_refcounts h ?d"
  let ?d2 = "if refcount x = 1 then notify_deregistered h ?d1 else ?d1"
  let ?x' = "x\<lparr>refcount := refcount x - 1, weak_refcount := weak_refcount x - 1\<rparr>"
  have st: "deregisterDef h n ?d = erase_if_unreferenced h n ?d2"
    using deregisterDef_steps [OF x(2) x(4) x(5) x(6) x(7)] .
  have g: "deref ?d1 h = Some ?x'"
    using x(2) by (simp add: deref_decrement_refcounts)
  have n: "entry_name (op ?x') = n"
    using x(3) by simp
  have v: "findSchema ?d1 n = Some h"
    using node_present(2) [OF invariant_run x(1)] x(3) by (simp add: findSchema_def)
  have v': "findSchema ?d1 (entry_name (op ?x')) = Some h"
    unfolding n by (rule v)
  have l1: "listeners ?d1 = listeners ?d" by simp
  have k1: "calls ?d1 = calls ?d" by simp
  have l2: "listeners ?d2 =
      (if refcount x = 1
       then map (\<lambda>l. l @ [OnOperatorDeregistered h]) (listeners ?d)
       else listeners ?d)"
    by (simp add: callOnOperatorDeregistered_eq)
  have k2: "calls ?d2 =
      calls ?d @
      (if refcount x = 1
       then map (\<lambda>j. Call j (OnOperatorDeregistered h) (Some ?x') (Some h))
                [0..<length (listeners ?d)]
       else [])"
    using calls_notify_deregistered [OF g v'] by simp
  have fl: "listeners (snd (deregisterDef h n ?d)) = listeners ?d2"
    unfolding st by (rule listeners_erase_if_unreferenced)
  have fc: "calls (snd (deregisterDef h n ?d)) = calls ?d2"
    unfolding st by (rule calls_erase_if_unreferenced)
  have gone: "weak_refcount x = 1 \<longrightarrow>
      deref (snd (deregisterDef h n ?d)) h = None
      \<and> findSchema (snd (deregisterDef h n ?d)) n = None"
  proof
    assume w: "weak_refcount x = 1"
    note e = deregisterDef_effect [OF x(2) x(4) x(5) x(6) x(7) x(8)]
    have "h \<notin> fst ` set (operators (snd (deregisterDef h n ?d)))"
      unfolding e(2) using w by (auto simp add: set_erase_nodes)
    then have a: "deref (snd (deregisterDef h n ?d)) h = None"
      by (rule deref_fresh)
    have b: "findSchema (snd (deregisterDef h n ?d)) n = None"
      using w by (simp add: findSchema_def e(3))
    from a b show "deref (snd (deregisterDef h n ?d)) h = None
      \<and> findSchema (snd (deregisterDef h n ?d)) n = None" by (rule conjI)
  qed
  show "\<exists>x x' d1 d2. deref ?d h = Some x \<and> 0 < refcount x
            \<and> x' = x\<lparr>refcount := refcount x - 1, weak_refcount := weak_refcount x - 1\<rparr>
            \<and> d1 = decrement_refcounts h ?d
            \<and> listeners d1 = listeners ?d
            \<and> calls d1 = calls ?d
            \<and> deref d1 h = Some x' \<and> entry_name (op x') = n \<and> findSchema d1 n = Some h
            \<and> d2 = (if refcount x = 1 then notify_deregistered h d1 else d1)
            \<and> listeners d2 =
                (if refcount x = 1
                 then map (\<lambda>l. l @ [OnOperatorDeregistered h]) (listeners ?d)
                 else listeners ?d)
            \<and> calls d2 =
                calls ?d @
                (if refcount x = 1
                 then map (\<lambda>j. Call j (OnOperatorDeregistered h) (Some x') (Some h))
                          [0..<length (listeners ?d)]
                 else [])
            \<and> deregisterDef h n ?d = erase_if_unreferenced h n d2
            \<and> listeners (snd (deregisterDef h n ?d)) = listeners d2
            \<and> calls (snd (deregisterDef h n ?d)) = calls d2
            \<and> (weak_refcount x = 1 \<longrightarrow>
                  deref (snd (deregisterDef h n ?d)) h = None
                  \<and> findSchema (snd (deregisterDef h n ?d)) n = None)"
    using x(2) x(6) l1 k1 g n v l2 k2 st fl fc gone by blast
qed

theorem listeners_called_at_refcount_boundaries_witness:
  "calls (snd (registerDef
       \<lparr>operator_name = (''add'', ''''), signature = ''(a, b)'', aliasAnalysis = KIND 1\<rparr>
       (disp (run [AddRegistrationListener []]))))
     = [Call 0 (OnOperatorRegistered 0)
          (Some \<lparr>op = \<lparr>entry_name = (''add'', ''''),
                        entry_schema = Some \<lparr>operator_name = (''add'', ''''),
                          signature = ''(a, b)'', aliasAnalysis = KIND 1\<rparr>,
                        kernels = []\<rparr>,
                  refcount = 1, weak_refcount = 1\<rparr>)
          (Some 0)]
   \<and> listeners (snd (registerDef
       \<lparr>operator_name = (''add'', ''''), signature = ''(a, b)'', aliasAnalysis = KIND 1\<rparr>
       (disp (run [AddRegistrationListener []]))))
     = [[OnOperatorRegistered 0]]
   \<and> calls (snd (registerDef
       \<lparr>operator_name = (''add'', ''''), signature = ''(a, b)'', aliasAnalysis = KIND 1\<rparr>
       (disp (run [AddRegistrationListener [],
                   RegisterDef \<lparr>operator_name = (''add'', ''''), signature = ''(a, b)'',
                                aliasAnalysis = KIND 1\<rparr>]))))
     = calls (disp (run [AddRegistrationListener [],
                   RegisterDef \<lparr>operator_name = (''add'', ''''), signature = ''(a, b)'',
                                aliasAnalysis = KIND 1\<rparr>]))
   \<and> calls (snd (deregisterDef 0 (''add'', '''')
       (disp (run [AddRegistrationListener [],
                   RegisterDef \<lparr>operator_name = (''add'', ''''), signature = ''(a, b)'',
                                aliasAnalysis = KIND 1\<rparr>]))))
     = [Call 0 (OnOperatorRegistered 0)
          (Some \<lparr>op = \<lparr>entry_name = (''add'', ''''),
                        entry_schema = Some \<lparr>operator_name = (''add'', ''''),
                          signature = ''(a, b)'', aliasAnalysis = KIND 1\<rparr>,
                        kernels = []\<rparr>,
                  refcount = 1, weak_refcount = 1\<rparr>)
          (Some 0),
        Call 0 (OnOperatorDeregistered 0)
          (Some \<lparr>op = \<lparr>entry_name = (''add'', ''''),
                        entry_schema = Some \<lparr>operator_name = (''add'', ''''),
                          signature = ''(a, b)'', aliasAnalysis = KIND 1\<rparr>,
                        kernels = []\<rparr>,
                  refcount = 0, weak_refcount = 0\<rparr>)
          (Some 0)]
   \<and> listeners (snd (deregisterDef 0 (''add'', '''')
       (disp (run [AddRegistrationListener [],
                   RegisterDef \<lparr>operator_name = (''add'', ''''), signature = ''(a, b)'',
                                aliasAnalysis = KIND 1\<rparr>]))))
     = [[OnOperatorRegistered 0, OnOperatorDeregistered 0]]
   \<and> deref (snd (deregisterDef 0 (''add'', '''')
       (disp (run [AddRegistrationListener [],
                   RegisterDef \<lparr>operator_name = (''add'', ''''), signature = ''(a, b)'',
                                aliasAnalysis = KIND 1\<rparr>])))) 0
     = None"
proof -
  let ?sch = "\<lparr>operator_name = (''add'', ''''), signature = ''(a, b)'', aliasAnalysis = KIND 1\<rparr>"
  let ?ops0 = "[AddRegistrationListener []]"
  let ?ops1 = "[AddRegistrationListener [], RegisterDef ?sch]"
  let ?d0 = "disp (run ?ops0)" and ?d1 = "disp (run ?ops1)"
  let ?e = "\<lparr>entry_name = (''add'', ''''), entry_schema = Some ?sch, kernels = []\<rparr>"
  let ?x0 = "\<lparr>op = ?e, refcount = 0, weak_refcount = 0\<rparr>"
  let ?x1 = "\<lparr>op = ?e, refcount = 1, weak_refcount = 1\<rparr>"
  let ?x2 = "\<lparr>op = ?e, refcount = 2, weak_refcount = 2\<rparr>"
  note t0 = listeners_called_at_refcount_boundaries [of ?sch ?ops0 0 "(''add'', '''')"]
  note t1 = listeners_called_at_refcount_boundaries [of ?sch ?ops1 0 "(''add'', '''')"]
  have r0: "fst (registerDef ?sch ?d0) = Inr (DefRegistration 0 (''add'', ''''))" by code_simp
  have r1: "fst (registerDef ?sch ?d1) = Inr (DefRegistration 0 (''add'', ''''))" by code_simp
  have i0: "deref (increment_refcounts 0 (snd (findOrRegisterWithSchema ?sch ?d0))) 0 = Some ?x1"
    by code_simp
  have i1: "deref (increment_refcounts 0 (snd (findOrRegisterWithSchema ?sch ?d1))) 0 = Some ?x2"
    by code_simp
  have g1: "deref ?d1 0 = Some ?x1" by code_simp
  have l0: "listeners ?d0 = [[]]" by code_simp
  have l1: "listeners ?d1 = [[OnOperatorRegistered 0]]" by code_simp
  have k0: "calls ?d0 = []" by code_simp
  have k1: "calls ?d1 = [Call 0 (OnOperatorRegistered 0) (Some ?x1) (Some 0)]" by code_simp
  have v1: "DefRegistration 0 (''add'', '''') \<in> set (live (run ?ops1))" by code_simp
  have a: "calls (snd (registerDef ?sch ?d0))
             = [Call 0 (OnOperatorRegistered 0) (Some ?x1) (Some 0)]
           \<and> listeners (snd (registerDef ?sch ?d0)) = [[OnOperatorRegistered 0]]"
  proof -
    from t0 [THEN conjunct2, THEN conjunct1, rule_format, OF r0] obtain h d2 x2
      where w: "DefRegistration 0 (''add'', '''') = DefRegistration h (operator_name ?sch)
        \<and> d2 = increment_refcounts h (snd (findOrRegisterWithSchema ?sch ?d0))
        \<and> deref d2 h = Some x2 \<and> entry_name (op x2) = operator_name ?sch
        \<and> findSchema d2 (operator_name ?sch) = Some h
        \<and> listeners d2 = listeners ?d0
        \<and> calls d2 = calls ?d0
        \<and> refcount x2 = (case deref ?d0 h of None \<Rightarrow> 0 | Some x \<Rightarrow> refcount x) + 1
        \<and> snd (registerDef ?sch ?d0) =
            (if refcount x2 = 1 then notify_registered h d2 else d2)
        \<and> listeners (snd (registerDef ?sch ?d0)) =
            (if refcount x2 = 1
             then map (\<lambda>l. l @ [OnOperatorRegistered h]) (listeners ?d0)
             else listeners ?d0)
        \<and> calls (snd (registerDef ?sch ?d0)) =
            calls ?d0 @
            (if refcount x2 = 1
             then map (\<lambda>j. Call j (OnOperatorRegistered h) (Some x2) (Some h))
                      [0..<length (listeners ?d0)]
             else [])"
      by (elim exE) (rule that)
    from w have w1: "DefRegistration 0 (''add'', '''') = DefRegistration h (operator_name ?sch)"
      by (elim conjE)
    from w have w2: "d2 = increment_refcounts h (snd (findOrRegisterWithSchema ?sch ?d0))"
      by (elim conjE)
    from w have w3: "deref d2 h = Some x2" by (elim conjE)
    from w have w4: "listeners (snd (registerDef ?sch ?d0)) =
            (if refcount x2 = 1
             then map (\<lambda>l. l @ [OnOperatorRegistered h]) (listeners ?d0)
             else listeners ?d0)" by (elim conjE)
    from w have w5: "calls (snd (registerDef ?sch ?d0)) =
            calls ?d0 @
            (if refcount x2 = 1
             then map (\<lambda>j. Call j (OnOperatorRegistered h) (Some x2) (Some h))
                      [0..<length (listeners ?d0)]
             else [])" by (elim conjE)
    from w1 have h: "h = 0" by simp
    from w3 have x2: "x2 = ?x1" unfolding w2 h i0 by simp
    show ?thesis unfolding w4 w5 h x2 l0 k0 by simp
  qed
  have b: "calls (snd (registerDef ?sch ?d1)) = calls ?d1"
  proof -
    from t1 [THEN conjunct2, THEN conjunct1, rule_format, OF r1] obtain h d2 x2
      where w: "DefRegistration 0 (''add'', '''') = DefRegistration h (operator_name ?sch)
        \<and> d2 = increment_refcounts h (snd (findOrRegisterWithSchema ?sch ?d1))
        \<and> deref d2 h = Some x2 \<and> entry_name (op x2) = operator_name ?sch
        \<and> findSchema d2 (operator_name ?sch) = Some h
        \<and> listeners d2 = listeners ?d1
        \<and> calls d2 = calls ?d1
        \<and> refcount x2 = (case deref ?d1 h of None \<Rightarrow> 0 | Some x \<Rightarrow> refcount x) + 1
        \<and> snd (registerDef ?sch ?d1) =
            (if refcount x2 = 1 then notify_registered h d2 else d2)
        \<and> listeners (snd (registerDef ?sch ?d1)) =
            (if refcount x2 = 1
             then map (\<lambda>l. l @ [OnOperatorRegistered h]) (listeners ?d1)
             else listeners ?d1)
        \<and> calls (snd (registerDef ?sch ?d1)) =
            calls ?d1 @
            (if refcount x2 = 1
             then map (\<lambda>j. Call j (OnOperatorRegistered h) (Some x2) (Some h))
                      [0..<length (listeners ?d1)]
             else [])"
      by (elim exE) (rule that)
    from w have w1: "DefRegistration 0 (''add'', '''') = DefRegistration h (operator_name ?sch)"
      by (elim conjE)
    from w have w2: "d2 = increment_refcounts h (snd (findOrRegisterWithSchema ?sch ?d1))"
      by (elim conjE)
    from w have w3: "deref d2 h = Some x2" by (elim conjE)
    from w have w5: "calls (snd (registerDef ?sch ?d1)) =
            calls ?d1 @
            (if refcount x2 = 1
             then map (\<lambda>j. Call j (OnOperatorRegistered h) (Some x2) (Some h))
                      [0..<length (listeners ?d1)]
             else [])" by (elim conjE)
    from w1 have h: "h = 0" by simp
    from w3 have x2: "x2 = ?x2" unfolding w2 h i1 by simp
    show ?thesis unfolding w5 x2 by simp
  qed
  have c: "calls (snd (deregisterDef 0 (''add'', '''') ?d1))
             = [Call 0 (OnOperatorRegistered 0) (Some ?x1) (Some 0),
                Call 0 (OnOperatorDeregistered 0) (Some ?x0) (Some 0)]
           \<and> listeners (snd (deregisterDef 0 (''add'', '''') ?d1))
             = [[OnOperatorRegistered 0, OnOperatorDeregistered 0]]
           \<and> deref (snd (deregisterDef 0 (''add'', '''') ?d1)) 0 = None"
  proof -
    from t1 [THEN conjunct2, THEN conjunct2, rule_format, OF v1] obtain x x' d1 d2
      where w: "deref ?d1 0 = Some x \<and> 0 < refcount x
            \<and> x' = x\<lparr>refcount := refcount x - 1, weak_refcount := weak_refcount x - 1\<rparr>
            \<and> d1 = decrement_refcounts 0 ?d1
            \<and> listeners d1 = listeners ?d1
            \<and> calls d1 = calls ?d1
            \<and> deref d1 0 = Some x' \<and> entry_name (op x') = (''add'', '''')
            \<and> findSchema d1 (''add'', '''') = Some 0
            \<and> d2 = (if refcount x = 1 then notify_deregistered 0 d1 else d1)
            \<and> listeners d2 =
                (if refcount x = 1
                 then map (\<lambda>l. l @ [OnOperatorDeregistered 0]) (listeners ?d1)
                 else listeners ?d1)
            \<and> calls d2 =
                calls ?d1 @
                (if refcount x = 1
                 then map (\<lambda>j. Call j (OnOperatorDeregistered 0) (Some x') (Some 0))
                          [0..<length (listeners ?d1)]
                 else [])
            \<and> deregisterDef 0 (''add'', '''') ?d1 = erase_if_unreferenced 0 (''add'', '''') d2
            \<and> listeners (snd (deregisterDef 0 (''add'', '''') ?d1)) = listeners d2
            \<and> calls (snd (deregisterDef 0 (''add'', '''') ?d1)) = calls d2
            \<and> (weak_refcount x = 1 \<longrightarrow>
                  deref (snd (deregisterDef 0 (''add'', '''') ?d1)) 0 = None
                  \<and> findSchema (snd (deregisterDef 0 (''add'', '''') ?d1)) (''add'', '''') = None)"
      by (elim exE) (rule that)
    from w have w1: "deref ?d1 0 = Some x" by (elim conjE)
    from w have w2: "x' = x\<lparr>refcount := refcount x - 1, weak_refcount := weak_refcount x - 1\<rparr>"
      by (elim conjE)
    from w have w3: "listeners d2 =
                (if refcount x = 1
                 then map (\<lambda>l. l @ [OnOperatorDeregistered 0]) (listeners ?d1)
                 else listeners ?d1)" by (elim conjE)
    from w have w4: "calls d2 =
                calls ?d1 @
                (if refcount x = 1
                 then map (\<lambda>j. Call j (OnOperatorDeregistered 0) (Some x') (Some 0))
                          [0..<length (listeners ?d1)]
                 else [])" by (elim conjE)
    from w have w5: "listeners (snd (deregisterDef 0 (''add'', '''') ?d1)) = listeners d2"
      by (elim conjE)
    from w have w6: "calls (snd (deregisterDef 0 (''add'', '''') ?d1)) = calls d2"
      by (elim conjE)
    from w have w7: "weak_refcount x = 1 \<longrightarrow>
                  deref (snd (deregisterDef 0 (''add'', '''') ?d1)) 0 = None
                  \<and> findSchema (snd (deregisterDef 0 (''add'', '''') ?d1)) (''add'', '''') = None"
      by (elim conjE)
    from w1 have x: "x = ?x1" unfolding g1 by simp
    have x': "x' = ?x0" unfolding w2 x by simp
    have c1: "calls (snd (deregisterDef 0 (''add'', '''') ?d1))
             = [Call 0 (OnOperatorRegistered 0) (Some ?x1) (Some 0),
                Call 0 (OnOperatorDeregistered 0) (Some ?x0) (Some 0)]"
      unfolding w6 w4 x' x l1 k1 by simp
    have c2: "listeners (snd (deregisterDef 0 (''add'', '''') ?d1))
             = [[OnOperatorRegistered 0, OnOperatorDeregistered 0]]"
      unfolding w5 w3 x l1 by simp
    have c3: "deref (snd (deregisterDef 0 (''add'', '''') ?d1)) 0 = None"
      using w7 unfolding x by simp
    from c1 c2 c3 show ?thesis by (intro conjI)
  qed
  from a b c show ?thesis by (elim conjE) (intro conjI)
qed

end
